theory Spec2Isabelle
  imports Complex_Main
begin

section \<open>The Gantt ring layout of ganttRing.ts\<close>

text \<open>
  The development embeds the layout computation of the GanttRing visual
  (\<^verbatim>\<open>src/Clients/Visuals/visuals/ganttRing.ts\<close>): \<^verbatim>\<open>calcPercent\<close>,
  \<^verbatim>\<open>calcTaskRadians\<close>, \<^verbatim>\<open>buildGantTasks\<close>, \<^verbatim>\<open>converter\<close> and
  \<^verbatim>\<open>getTotalProgressLabel\<close>.

  Modelling decisions:
  \<^item> A JavaScript number is a \<open>jsnum\<close>: a real, one of the two infinities, or NaN.
    Comparisons with NaN are false and division by zero yields an infinity or NaN, as in
    the language. A product or a quotient is brought into the range of doubles by
    \<open>toDouble\<close>: a magnitude of \<open>2^1024 - 2^970\<close> or more becomes an infinity, and a
    magnitude below the least normal double \<open>2^-1022\<close> is rounded to a multiple of the
    least subnormal \<open>2^-1074\<close>, a tie going to the even multiple, so that a quotient too
    small for a double is zero. Between these bounds a result is exact: the rounding of a
    normal double to 53 bits is not modelled, \<^verbatim>\<open>Math.PI\<close> is \<open>pi\<close> and the literal
    \<^verbatim>\<open>3.6\<close> is \<open>36 / 10\<close>. A difference is exact as well: the program subtracts
    millisecond counts, which are whole numbers far inside the range. There is one zero,
    the positive one: the divisors of the source are \<^verbatim>\<open>Math.abs(...) / 100\<close> and a positive
    difference over 100, neither of which is the negative zero.
  \<^item> The cells of the start and end columns are \<^verbatim>\<open>Date\<close> objects (the role declared by
    the capabilities and produced by the sample data); a date holds an integer count of
    milliseconds or is invalid, in which case its \<^verbatim>\<open>valueOf()\<close> is NaN. An index beyond
    the end of an array reads \<^verbatim>\<open>undefined\<close>, and \<^verbatim>\<open>new Date(undefined)\<close> is invalid.
  \<^item> \<^verbatim>\<open>Date.now()\<close> is a parameter: the reading taken while task \<open>i\<close> is built is
    \<open>clock i\<close>, the reading taken after the last task is \<open>clock (length names)\<close>.
  \<^item> A thrown \<^verbatim>\<open>TypeError\<close> is the value \<open>Inl TypeError\<close>.
  \<^item> The colour, selection id and tooltip of a task are not modelled: no layout value
    is computed from them. The model therefore has no error for a colour scale or an
    identity array that is missing, and cells that are numbers, strings or \<^verbatim>\<open>null\<close> are
    outside it.
\<close>

subsection \<open>Numbers\<close>

datatype jsnum = NaN | NegInf | Num real | PosInf

text \<open>The relational operators \<^verbatim>\<open><=\<close> and \<^verbatim>\<open><\<close>; \<^verbatim>\<open>a >= b\<close> is \<open>js_le b a\<close>.\<close>

fun js_le :: "jsnum \<Rightarrow> jsnum \<Rightarrow> bool" where
  "js_le NaN _ = False"
| "js_le _ NaN = False"
| "js_le NegInf _ = True"
| "js_le _ PosInf = True"
| "js_le (Num x) (Num y) = (x \<le> y)"
| "js_le _ _ = False"

fun js_lt :: "jsnum \<Rightarrow> jsnum \<Rightarrow> bool" where
  "js_lt NaN _ = False"
| "js_lt _ NaN = False"
| "js_lt PosInf _ = False"
| "js_lt _ NegInf = False"
| "js_lt (Num x) (Num y) = (x < y)"
| "js_lt _ _ = True"

definition js_ge :: "jsnum \<Rightarrow> jsnum \<Rightarrow> bool" where
  "js_ge a b = js_le b a"

definition js_gt :: "jsnum \<Rightarrow> jsnum \<Rightarrow> bool" where
  "js_gt a b = js_lt b a"

fun js_sub :: "jsnum \<Rightarrow> jsnum \<Rightarrow> jsnum" where
  "js_sub NaN _ = NaN"
| "js_sub _ NaN = NaN"
| "js_sub (Num x) (Num y) = Num (x - y)"
| "js_sub PosInf PosInf = NaN"
| "js_sub NegInf NegInf = NaN"
| "js_sub PosInf _ = PosInf"
| "js_sub NegInf _ = NegInf"
| "js_sub (Num x) PosInf = NegInf"
| "js_sub (Num x) NegInf = PosInf"

text \<open>Rounding to the nearest integer, a tie going to the even one.\<close>

definition rne :: "real \<Rightarrow> int" where
  "rne x =
     (let f = \<lfloor>x\<rfloor> in
      if x - of_int f < 1 / 2 then f
      else if 1 / 2 < x - of_int f then f + 1
      else if even f then f else f + 1)"

text \<open>The double that stands for an exact product or quotient \<open>r\<close>.\<close>

definition toDouble :: "real \<Rightarrow> jsnum" where
  "toDouble r =
     (if 2 ^ 1024 - 2 ^ 970 \<le> r then PosInf
      else if r \<le> - (2 ^ 1024 - 2 ^ 970) then NegInf
      else if \<bar>r\<bar> < 1 / 2 ^ 1022 then Num (of_int (rne (r * 2 ^ 1074)) / 2 ^ 1074)
      else Num r)"

fun js_mul :: "jsnum \<Rightarrow> jsnum \<Rightarrow> jsnum" where
  "js_mul NaN _ = NaN"
| "js_mul _ NaN = NaN"
| "js_mul (Num x) (Num y) = toDouble (x * y)"
| "js_mul PosInf (Num y) = (if y = 0 then NaN else if 0 < y then PosInf else NegInf)"
| "js_mul NegInf (Num y) = (if y = 0 then NaN else if 0 < y then NegInf else PosInf)"
| "js_mul (Num x) PosInf = (if x = 0 then NaN else if 0 < x then PosInf else NegInf)"
| "js_mul (Num x) NegInf = (if x = 0 then NaN else if 0 < x then NegInf else PosInf)"
| "js_mul PosInf PosInf = PosInf"
| "js_mul NegInf NegInf = PosInf"
| "js_mul PosInf NegInf = NegInf"
| "js_mul NegInf PosInf = NegInf"

fun js_div :: "jsnum \<Rightarrow> jsnum \<Rightarrow> jsnum" where
  "js_div NaN _ = NaN"
| "js_div _ NaN = NaN"
| "js_div (Num x) (Num y) =
     (if y \<noteq> 0 then toDouble (x / y)
      else if x = 0 then NaN else if 0 < x then PosInf else NegInf)"
| "js_div (Num x) _ = Num 0"
| "js_div PosInf (Num y) = (if 0 \<le> y then PosInf else NegInf)"
| "js_div NegInf (Num y) = (if 0 \<le> y then NegInf else PosInf)"
| "js_div _ _ = NaN"

fun js_abs :: "jsnum \<Rightarrow> jsnum" where
  "js_abs NaN = NaN"
| "js_abs (Num x) = Num \<bar>x\<bar>"
| "js_abs _ = PosInf"

text \<open>\<^verbatim>\<open>Math.max\<close> of two arguments: NaN when either is NaN.\<close>

fun js_max :: "jsnum \<Rightarrow> jsnum \<Rightarrow> jsnum" where
  "js_max NaN _ = NaN"
| "js_max _ NaN = NaN"
| "js_max a b = (if js_le a b then b else a)"

text \<open>\<^verbatim>\<open>Math.round\<close>: the nearest integer, a tie going up.\<close>

fun js_round :: "jsnum \<Rightarrow> jsnum" where
  "js_round (Num x) = Num (of_int \<lfloor>x + 1 / 2\<rfloor>)"
| "js_round a = a"

subsection \<open>Percentages and angles\<close>

text \<open>
  \<^verbatim>\<open>calcPercent(value, total, overflowValue = 100)\<close>, line 516. A call that leaves the
  third argument out passes \<open>Num 100\<close> here. Both quotients are those of \<open>js_div\<close>: for a
  total so small that its hundredth is no double but zero, the outer division is a
  division by zero.
\<close>

definition calcPercent :: "jsnum \<Rightarrow> jsnum \<Rightarrow> jsnum \<Rightarrow> jsnum" where
  "calcPercent value total' overflowValue =
     (if js_ge value total' then overflowValue
      else js_div value (js_div total' (Num 100)))"

text \<open>
  \<^verbatim>\<open>calcTaskRadians(value, duration, defaultToZero = false)\<close>, line 523. A call that
  leaves the third argument out passes \<open>False\<close> here.
\<close>

definition calcTaskRadians :: "jsnum \<Rightarrow> jsnum \<Rightarrow> bool \<Rightarrow> jsnum" where
  "calcTaskRadians value duration defaultToZero =
     (let percent = calcPercent value duration (if defaultToZero then Num 0 else Num 100);
          degrees = js_mul percent (Num (36 / 10))
      in js_div (js_mul degrees (Num pi)) (Num 180))"

text \<open>Lines 527 to 529 on their own: the angle, in radians, of a percentage. It is
  \<^verbatim>\<open>calcTaskRadians\<close> without its first line.\<close>

definition radiansOf :: "jsnum \<Rightarrow> jsnum" where
  "radiansOf percent =
     (let degrees = js_mul percent (Num (36 / 10))
      in js_div (js_mul degrees (Num pi)) (Num 180))"

subsection \<open>Dates, arrays and errors\<close>

datatype error = TypeError

datatype Date = ValidDate int | InvalidDate

fun valueOf :: "Date \<Rightarrow> jsnum" where
  "valueOf (ValidDate ms) = Num (of_int ms)"
| "valueOf InvalidDate = NaN"

text \<open>
  \<^verbatim>\<open>array.reduce(f)\<close> without an initial value: a \<^verbatim>\<open>TypeError\<close> on the empty array,
  otherwise the fold from the left that starts at the first element.
\<close>

definition reduce :: "('a \<Rightarrow> 'a \<Rightarrow> 'a) \<Rightarrow> 'a list \<Rightarrow> error + 'a" where
  "reduce f xs = (case xs of [] \<Rightarrow> Inl TypeError | x # rest \<Rightarrow> Inr (foldl f x rest))"

text \<open>The callbacks of lines 404 and 405; the operands of \<^verbatim>\<open><\<close> and \<^verbatim>\<open>>\<close> are dates,
  compared by their time values.\<close>

definition minDate :: "Date \<Rightarrow> Date \<Rightarrow> Date" where
  "minDate prev cur = (if js_lt (valueOf prev) (valueOf cur) then prev else cur)"

definition maxDate :: "Date \<Rightarrow> Date \<Rightarrow> Date" where
  "maxDate prev cur = (if js_gt (valueOf prev) (valueOf cur) then prev else cur)"

text \<open>
  \<^verbatim>\<open>xs[i] instanceof Date ? xs[i] : new Date(xs[i])\<close>, lines 410 and 411: the element
  itself, or the invalid date made from \<^verbatim>\<open>undefined\<close> when \<open>i\<close> is out of range.
\<close>

definition dateAt :: "Date list \<Rightarrow> nat \<Rightarrow> Date" where
  "dateAt xs i = (if i < length xs then xs ! i else InvalidDate)"

subsection \<open>Tasks and charts\<close>

record IGanttTask =
  name :: string
  startAngle :: jsnum
  endAngle :: jsnum
  layer :: int
  taskProgress :: jsnum

text \<open>The field \<^verbatim>\<open>progress\<close> of a task is \<open>taskProgress\<close>; that of the chart keeps
  its name.\<close>

record IGantt =
  tasks :: "IGanttTask list"
  layers :: nat
  compress :: bool
  progress :: jsnum
  progressAngle :: jsnum

text \<open>Lines 410 to 442: the task as the callback creates it, its layer still \<open>-1\<close>.\<close>

definition newTask ::
  "(nat \<Rightarrow> int) \<Rightarrow> jsnum \<Rightarrow> jsnum \<Rightarrow> Date list \<Rightarrow> Date list \<Rightarrow> string \<Rightarrow> nat \<Rightarrow> IGanttTask" where
  "newTask clock start duration starts ends nm i =
     (let taskStart = dateAt starts i;
          taskEnd = dateAt ends i;
          taskStartValue = valueOf taskStart;
          taskEndValue = valueOf taskEnd;
          taskDuration = js_sub taskEndValue taskStartValue;
          completed = js_sub (js_max (Num (of_int (clock i))) taskStartValue) taskStartValue;
          progress' = js_round (calcPercent completed taskDuration (Num 100))
      in \<lparr>name = nm,
          startAngle = calcTaskRadians (js_sub taskStartValue start) duration True,
          endAngle = calcTaskRadians (js_sub taskEndValue start) duration False,
          layer = - 1,
          taskProgress = progress'\<rparr>)"

text \<open>The test of line 451, for a member \<open>t\<close> of a layer and the new \<open>task\<close>.\<close>

definition hasRoomFor :: "IGanttTask \<Rightarrow> IGanttTask \<Rightarrow> bool" where
  "hasRoomFor task t =
     (js_ge (startAngle t) (endAngle task) \<or> js_le (endAngle t) (startAngle task))"

text \<open>
  The loop of lines 448 to 458, from layer \<open>l\<close> on: the task with its layer set and
  pushed on the first layer that has room, or the task unchanged (layer \<open>-1\<close>) when
  the loop runs to its end.
\<close>

function scanLayers ::
  "IGanttTask list list \<Rightarrow> IGanttTask \<Rightarrow> nat \<Rightarrow> IGanttTask \<times> IGanttTask list list" where
  "scanLayers lys task l =
     (if l < length lys then
        (let hasRoom = list_all (hasRoomFor task) (lys ! l) in
         if hasRoom then
           (let task' = task\<lparr>layer := int l\<rparr> in (task', lys[l := lys ! l @ [task']]))
         else scanLayers lys task (l + 1))
      else (task, lys))"
  by pat_completeness auto
termination
  by (relation "measure (\<lambda>(lys, task, l). length lys - l)") auto

text \<open>Lines 446 to 466. The task pushed as a new layer is the object whose layer is
  then set to \<^verbatim>\<open>layers.length - 1\<close>, so the layer holds the updated task.\<close>

definition assignLayer ::
  "bool \<Rightarrow> nat \<Rightarrow> IGanttTask \<Rightarrow> IGanttTask list list \<Rightarrow> IGanttTask \<times> IGanttTask list list" where
  "assignLayer compress' i task lys =
     (if compress' then
        (case scanLayers lys task 0 of (task1, lys1) \<Rightarrow>
           if layer task1 = - 1 then
             (let task2 = task1\<lparr>layer := int (length (lys1 @ [[task1]])) - 1\<rparr>
              in (task2, lys1 @ [[task2]]))
           else (task1, lys1))
      else (task\<lparr>layer := int i\<rparr>, lys))"

text \<open>\<^verbatim>\<open>names.map((name, i) => ...)\<close>, lines 409 to 470, from index \<open>i\<close> on, threading
  the local array \<^verbatim>\<open>layers\<close>.\<close>

fun mapTasks ::
  "bool \<Rightarrow> (nat \<Rightarrow> int) \<Rightarrow> jsnum \<Rightarrow> jsnum \<Rightarrow> Date list \<Rightarrow> Date list \<Rightarrow> nat \<Rightarrow> string list
     \<Rightarrow> IGanttTask list list \<Rightarrow> IGanttTask list \<times> IGanttTask list list" where
  "mapTasks c clock start duration starts ends i [] lys = ([], lys)"
| "mapTasks c clock start duration starts ends i (nm # rest) lys =
     (case assignLayer c i (newTask clock start duration starts ends nm i) lys of
        (task, lys1) \<Rightarrow>
          (case mapTasks c clock start duration starts ends (i + 1) rest lys1 of
             (ts, lys2) \<Rightarrow> (task # ts, lys2)))"

text \<open>\<^verbatim>\<open>buildGantTasks\<close>, lines 403 to 477. The chart passed in is returned updated.\<close>

definition buildGantTasks ::
  "IGantt \<Rightarrow> (nat \<Rightarrow> int) \<Rightarrow> string list \<Rightarrow> Date list \<Rightarrow> Date list \<Rightarrow> error + IGantt" where
  "buildGantTasks gantt clock names starts ends =
     (case reduce minDate starts of
        Inl e \<Rightarrow> Inl e
      | Inr s \<Rightarrow>
          (case reduce maxDate ends of
             Inl e \<Rightarrow> Inl e
           | Inr e \<Rightarrow>
               (let start = valueOf s;
                    end' = valueOf e;
                    duration = js_abs (js_sub end' start)
                in case mapTasks (compress gantt) clock start duration starts ends 0 names [[]] of
                     (ts, lys) \<Rightarrow>
                       (let progress' =
                              js_sub (js_max (Num (of_int (clock (length names)))) start) start
                        in Inr (gantt\<lparr>tasks := ts,
                                  layers := (if compress gantt then length lys else length ts),
                                  progress := js_round (calcPercent progress' duration (Num 100)),
                                  progressAngle := calcTaskRadians progress' duration False\<rparr>)))))"

subsection \<open>The data view and the converter\<close>

text \<open>
  The parts of the host's \<^verbatim>\<open>DataView\<close> that the converter reads. \<open>categoryValues\<close> is
  \<^verbatim>\<open>category.values\<close>, \<open>valueColumns\<close> is \<^verbatim>\<open>categorical.values\<close> and \<open>columnValues\<close> is
  the \<^verbatim>\<open>values\<close> array of one of its columns. \<open>layoutCompress\<close> is what the host's
  \<^verbatim>\<open>DataViewObjects.getValue\<close> finds for the property \<^verbatim>\<open>layout.compress\<close>, if anything.
\<close>

record DataViewCategoryColumn =
  categoryValues :: "string list"

record DataViewValueColumn =
  columnValues :: "Date list"

record DataViewCategorical =
  categories :: "DataViewCategoryColumn list option"
  valueColumns :: "DataViewValueColumn list option"

record DataViewMetadata =
  layoutCompress :: "bool option"

record DataView =
  metadata :: "DataViewMetadata option"
  categorical :: "DataViewCategorical option"

definition compressLayout :: "DataView \<Rightarrow> bool" where
  "compressLayout dataView =
     (case metadata dataView of
        None \<Rightarrow> False
      | Some m \<Rightarrow> (case layoutCompress m of None \<Rightarrow> False | Some b \<Rightarrow> b))"

definition converter :: "DataView \<Rightarrow> (nat \<Rightarrow> int) \<Rightarrow> error + IGantt" where
  "converter dataView clock =
     (let gantt = \<lparr>tasks = [], layers = 0, compress = compressLayout dataView,
                   progress = Num 0, progressAngle = Num 0\<rparr>
      in case categorical dataView of
           None \<Rightarrow> Inr gantt
         | Some categoryView \<Rightarrow>
             (case categories categoryView of
                None \<Rightarrow> Inr gantt
              | Some cats \<Rightarrow>
                  if length cats > 0 then
                    (let category = cats ! 0;
                         names = categoryValues category
                     in case valueColumns categoryView of
                          None \<Rightarrow> Inr gantt
                        | Some vals \<Rightarrow>
                            if length vals \<ge> 2 then
                              buildGantTasks gantt clock names
                                (columnValues (vals ! 0)) (columnValues (vals ! 1))
                            else Inr gantt)
                  else Inr gantt))"

text \<open>\<^verbatim>\<open>getTotalProgressLabel\<close>, line 232. The conversion of a number to a string in
  \<^verbatim>\<open>progress + '%'\<close> is the parameter \<open>toString\<close>.\<close>

definition getTotalProgressLabel :: "(jsnum \<Rightarrow> string) \<Rightarrow> nat \<Rightarrow> jsnum \<Rightarrow> string" where
  "getTotalProgressLabel toString tasksCount progress' =
     (if tasksCount = 0 then ''Project Has No Tasks''
      else if js_le progress' (Num 0) then ''Not Started''
      else if js_ge progress' (Num 100) then ''Completed''
      else toString progress' @ ''%'')"

subsection \<open>First fit, as the specification words it\<close>

text \<open>
  The layer assignment as the specification describes it, on arcs (start angle, end
  angle) alone: scan the existing layers in order, place the arc in the first layer all
  of whose members satisfy \<^verbatim>\<open>existing.start >= task.end OR existing.end <= task.start\<close>,
  and open a new layer when none qualifies. It starts from no layer at all. The result is
  the layer index of every arc and the final layers.
\<close>

type_synonym arc = "jsnum \<times> jsnum"

definition arcOf :: "IGanttTask \<Rightarrow> arc" where
  "arcOf t = (startAngle t, endAngle t)"

definition noOverlap :: "arc \<Rightarrow> arc \<Rightarrow> bool" where
  "noOverlap existing task =
     (js_ge (fst existing) (snd task) \<or> js_le (snd existing) (fst task))"

fun firstQualifying :: "arc list list \<Rightarrow> arc \<Rightarrow> nat option" where
  "firstQualifying [] a = None"
| "firstQualifying (ly # rest) a =
     (if list_all (\<lambda>e. noOverlap e a) ly then Some 0
      else map_option Suc (firstQualifying rest a))"

fun firstFit :: "arc list list \<Rightarrow> arc list \<Rightarrow> nat list \<times> arc list list" where
  "firstFit ls [] = ([], ls)"
| "firstFit ls (a # as) =
     (case firstQualifying ls a of
        Some l \<Rightarrow> (case firstFit (ls[l := ls ! l @ [a]]) as of (ks, ls') \<Rightarrow> (l # ks, ls'))
      | None \<Rightarrow> (case firstFit (ls @ [[a]]) as of (ks, ls') \<Rightarrow> (length ls # ks, ls')))"

subsection \<open>Sample inputs\<close>

text \<open>A clock that reads the epoch at every call, the chart of line 483 for a given
  compression flag, and three tasks of which the third overlaps the other two.\<close>

definition epochClock :: "nat \<Rightarrow> int" where
  "epochClock k = 0"

definition initialGantt :: "bool \<Rightarrow> IGantt" where
  "initialGantt c =
     \<lparr>tasks = [], layers = 0, compress = c, progress = Num 0, progressAngle = Num 0\<rparr>"

definition sampleNames :: "string list" where
  "sampleNames = [''a'', ''b'', ''c'']"

definition sampleStarts :: "Date list" where
  "sampleStarts = [ValidDate 0, ValidDate 5, ValidDate 2]"

definition sampleEnds :: "Date list" where
  "sampleEnds = [ValidDate 5, ValidDate 10, ValidDate 7]"

subsection \<open>The invariant of the layer array\<close>

text \<open>
  \<open>layered lys placed\<close>: every task placed so far carries the index of a layer of
  \<open>lys\<close> that holds it, and of two placed tasks on one layer the later passed the test
  of line 451 against the earlier.
\<close>

definition layered :: "IGanttTask list list \<Rightarrow> IGanttTask list \<Rightarrow> bool" where
  "layered lys placed \<longleftrightarrow>
     (\<forall>t \<in> set placed. 0 \<le> layer t \<and> layer t < int (length lys) \<and> t \<in> set (lys ! nat (layer t)))
   \<and> (\<forall>i j. i < j \<and> j < length placed \<and> layer (placed ! i) = layer (placed ! j)
          \<longrightarrow> hasRoomFor (placed ! j) (placed ! i))"

subsection \<open>The part of a chart that layout decides\<close>

text \<open>The name, angles and layer of every task and the layer count: a chart without
  its progress fields. \<open>laterClock\<close> is a second sample clock.\<close>

definition layoutOf :: "IGantt \<Rightarrow> (string \<times> jsnum \<times> jsnum \<times> int) list \<times> nat" where
  "layoutOf g = (map (\<lambda>t. (name t, startAngle t, endAngle t, layer t)) (tasks g), layers g)"

definition laterClock :: "nat \<Rightarrow> int" where
  "laterClock k = 8"

subsection \<open>A data view of three columns\<close>

text \<open>The view that \<^verbatim>\<open>getDataViews\<close> (line 606) assembles from a column of names, a column
  of start dates and a column of end dates, with no \<^verbatim>\<open>layout\<close> object in its metadata.\<close>

definition tableView :: "string list \<Rightarrow> Date list \<Rightarrow> Date list \<Rightarrow> DataView" where
  "tableView names starts ends =
     \<lparr>metadata = Some \<lparr>layoutCompress = None\<rparr>,
      categorical = Some \<lparr>categories = Some [\<lparr>categoryValues = names\<rparr>],
                           valueColumns = Some [\<lparr>columnValues = starts\<rparr>, \<lparr>columnValues = ends\<rparr>]\<rparr>\<rparr>"

section \<open>Properties\<close>

declare scanLayers.simps [simp del]

subsection \<open>Rounding into the range of doubles\<close>

lemma rne_bounds: "of_int (rne x) \<le> x + 1 / 2 \<and> x - 1 / 2 \<le> of_int (rne x)"
  unfolding rne_def Let_def by (auto; linarith)

lemma rne_floor: "rne x = \<lfloor>x\<rfloor> \<or> rne x = \<lfloor>x\<rfloor> + 1"
  by (simp add: rne_def Let_def)

lemma rne_of_int [simp]: "rne (of_int k) = k"
  by (simp add: rne_def)

lemma rne_mono:
  assumes "x \<le> y"
  shows "rne x \<le> rne y"
proof (cases "\<lfloor>x\<rfloor> < \<lfloor>y\<rfloor>")
  case True
  from rne_floor[of x] have "rne x \<le> \<lfloor>x\<rfloor> + 1" by auto
  moreover from rne_floor[of y] have "\<lfloor>y\<rfloor> \<le> rne y" by auto
  ultimately show ?thesis using True by linarith
next
  case False
  with assms have eq: "\<lfloor>x\<rfloor> = \<lfloor>y\<rfloor>" by (simp add: floor_mono order_antisym not_less)
  with assms show ?thesis by (auto simp: rne_def Let_def)
qed

lemma rne_zero [simp]: "rne 0 = 0"
  using rne_of_int[of 0] by simp

lemma rne_numeral [simp]: "rne (numeral k) = numeral k" "rne (- numeral k) = - numeral k"
  using rne_of_int[of "numeral k"] rne_of_int[of "- numeral k"] by simp_all

lemma toDouble_not_NaN [simp]: "toDouble r \<noteq> NaN"
  by (simp add: toDouble_def)

lemma toDouble_zero [simp]: "toDouble 0 = Num 0"
  by (simp add: toDouble_def)

lemma toDouble_ordinary:
  "1 / 2 ^ 1022 \<le> \<bar>r\<bar> \<Longrightarrow> \<bar>r\<bar> < 2 ^ 1024 - 2 ^ 970 \<Longrightarrow> toDouble r = Num r"
  by (auto simp: toDouble_def)

lemma toDouble_moderate:
  assumes "1 / 10 ^ 30 \<le> \<bar>r\<bar>" and "\<bar>r\<bar> \<le> 10 ^ 40"
  shows "toDouble r = Num r"
proof (rule toDouble_ordinary)
  have "(1::real) / 2 ^ 1022 \<le> 1 / 10 ^ 30" by simp
  with assms(1) show "1 / 2 ^ 1022 \<le> \<bar>r\<bar>" by linarith
  have "(10::real) ^ 40 < 2 ^ 1024 - 2 ^ 970" by simp
  with assms(2) show "\<bar>r\<bar> < 2 ^ 1024 - 2 ^ 970" by linarith
qed


lemma js_le_PosInf [simp]: "js_le a PosInf \<longleftrightarrow> a \<noteq> NaN"
  by (cases a) simp_all

lemma js_le_NegInf [simp]: "js_le NegInf b \<longleftrightarrow> b \<noteq> NaN"
  by (cases b) simp_all

lemma subnormal_bound:
  assumes "\<bar>r\<bar> < 1 / 2 ^ 1022"
  shows "\<bar>real_of_int (rne (r * 2 ^ 1074)) / 2 ^ 1074\<bar> \<le> 1 / 2 ^ 1022"
proof -
  have u: "(2::real) ^ 1074 = 2 ^ 1022 * 2 ^ 52" by (simp add: power_add [symmetric])
  from assms have "r * 2 ^ 1022 < 1" "- 1 < r * 2 ^ 1022"
    by (simp_all add: field_simps abs_less_iff)
  then have "r * 2 ^ 1022 * 2 ^ 52 \<le> 1 * 2 ^ 52" "(- 1) * 2 ^ 52 \<le> r * 2 ^ 1022 * 2 ^ 52"
    by (simp_all only: mult_le_cancel_right) simp_all
  then have up: "r * 2 ^ 1074 \<le> real_of_int (2 ^ 52)" and lo: "real_of_int (- (2 ^ 52)) \<le> r * 2 ^ 1074"
    by (simp_all add: u mult.assoc)
  from rne_mono[OF up] rne_mono[OF lo]
  have "rne (r * 2 ^ 1074) \<le> 2 ^ 52" "- (2 ^ 52) \<le> rne (r * 2 ^ 1074)" by simp_all
  then have "real_of_int (rne (r * 2 ^ 1074)) \<le> 2 ^ 52" "- (2 ^ 52) \<le> real_of_int (rne (r * 2 ^ 1074))"
    by (metis of_int_le_iff of_int_numeral of_int_power, metis of_int_le_iff of_int_minus of_int_numeral of_int_power)
  then have "\<bar>real_of_int (rne (r * 2 ^ 1074))\<bar> \<le> 2 ^ 52" by (simp add: abs_le_iff)
  then have "\<bar>real_of_int (rne (r * 2 ^ 1074))\<bar> / 2 ^ 1074 \<le> 2 ^ 52 / 2 ^ 1074"
    by (simp add: divide_right_mono)
  also have "(2::real) ^ 52 / 2 ^ 1074 = 1 / 2 ^ 1022" by (simp add: u)
  finally show ?thesis by simp
qed

lemma subnormal_mono:
  assumes "x \<le> y"
  shows "real_of_int (rne (x * 2 ^ 1074)) / 2 ^ 1074 \<le> real_of_int (rne (y * 2 ^ 1074)) / 2 ^ 1074"
proof -
  from assms have "x * 2 ^ 1074 \<le> y * 2 ^ 1074" by simp
  from rne_mono[OF this] show ?thesis by (simp add: divide_right_mono)
qed

lemma toDouble_mono:
  assumes "x \<le> y"
  shows "js_le (toDouble x) (toDouble y)"
proof -
  let ?T = "(2::real) ^ 1024 - 2 ^ 970" and ?s = "(1::real) / 2 ^ 1022"
  have Tpos: "0 < ?T" by simp
  consider "?T \<le> y" | "x \<le> - ?T" | "- ?T < x" "y < ?T" by linarith
  then show ?thesis
  proof cases
    case 1
    then show ?thesis by (simp add: toDouble_def)
  next
    case 2
    with Tpos have "\<not> ?T \<le> x" by linarith
    with 2 show ?thesis by (simp add: toDouble_def)
  next
    case 3
    with assms have range: "\<not> ?T \<le> x" "\<not> x \<le> - ?T" "\<not> ?T \<le> y" "\<not> y \<le> - ?T" by linarith+
    show ?thesis
    proof (cases "\<bar>x\<bar> < ?s")
      case sx: True
      show ?thesis
      proof (cases "\<bar>y\<bar> < ?s")
        case True
        with sx range subnormal_mono[OF assms] show ?thesis by (simp add: toDouble_def)
      next
        case False
        with sx assms have "?s \<le> y" by linarith
        moreover from subnormal_bound[OF sx] have "real_of_int (rne (x * 2 ^ 1074)) / 2 ^ 1074 \<le> ?s"
          by linarith
        ultimately have "real_of_int (rne (x * 2 ^ 1074)) / 2 ^ 1074 \<le> y" by linarith
        with sx False range show ?thesis by (simp add: toDouble_def)
      qed
    next
      case nx: False
      show ?thesis
      proof (cases "\<bar>y\<bar> < ?s")
        case True
        with nx assms have "x \<le> - ?s" by linarith
        moreover from subnormal_bound[OF True] have "- ?s \<le> real_of_int (rne (y * 2 ^ 1074)) / 2 ^ 1074"
          by linarith
        ultimately have "x \<le> real_of_int (rne (y * 2 ^ 1074)) / 2 ^ 1074" by linarith
        with nx True range show ?thesis by (simp add: toDouble_def)
      next
        case False
        with nx range assms show ?thesis by (simp add: toDouble_def)
      qed
    qed
  qed
qed

lemma js_mul_mono:
  assumes "js_le a b" and "0 < c"
  shows "js_le (js_mul a (Num c)) (js_mul b (Num c))"
proof (cases a)
  case (Num x)
  with assms show ?thesis
    by (cases b) (auto intro: toDouble_mono)
qed (use assms in \<open>cases b; auto\<close>)+

lemma js_div_mono:
  assumes "js_le a b" and "0 < c"
  shows "js_le (js_div a (Num c)) (js_div b (Num c))"
proof (cases a)
  case (Num x)
  with assms show ?thesis
    by (cases b) (auto intro: toDouble_mono simp: divide_right_mono)
qed (use assms in \<open>cases b; auto\<close>)+

lemma calcTaskRadians_radiansOf:
  "calcTaskRadians value duration defaultToZero =
     radiansOf (calcPercent value duration (if defaultToZero then Num 0 else Num 100))"
  by (simp add: calcTaskRadians_def radiansOf_def)

lemma radiansOf_mono: "js_le p q \<Longrightarrow> js_le (radiansOf p) (radiansOf q)"
  unfolding radiansOf_def Let_def
  by (intro js_div_mono js_mul_mono) simp_all

lemma scaled_moderate:
  assumes "1 / 10 ^ 20 \<le> \<bar>p\<bar>" and "\<bar>p\<bar> \<le> 10 ^ 30" and "1 / 25 \<le> k" and "k \<le> 15"
  shows "toDouble (p * k) = Num (p * k)"
proof (rule toDouble_moderate)
  from assms(3) have kpos: "0 < k" by simp
  then have eq: "\<bar>p * k\<bar> = \<bar>p\<bar> * k" by (simp add: abs_mult)
  have "1 / 10 ^ 20 * (1 / 25) \<le> \<bar>p\<bar> * k"
    using assms(1,3) by (intro mult_mono) simp_all
  moreover have "(1::real) / 10 ^ 30 \<le> 1 / 10 ^ 20 * (1 / 25)" by simp
  ultimately show "1 / 10 ^ 30 \<le> \<bar>p * k\<bar>" unfolding eq by linarith
  have "\<bar>p\<bar> * k \<le> 10 ^ 30 * 15"
    using assms(2,4) kpos by (intro mult_mono) simp_all
  moreover have "(10::real) ^ 30 * 15 \<le> 10 ^ 40" by simp
  ultimately show "\<bar>p * k\<bar> \<le> 10 ^ 40" unfolding eq by linarith
qed

lemma radiansOf_moderate:
  assumes "p = 0 \<or> (1 / 10 ^ 20 \<le> \<bar>p\<bar> \<and> \<bar>p\<bar> \<le> 10 ^ 30)"
  shows "radiansOf (Num p) = Num (p * (36 / 10) * pi / 180)"
proof (cases "p = 0")
  case True
  then show ?thesis by (simp add: radiansOf_def)
next
  case False
  with assms have lo: "1 / 10 ^ 20 \<le> \<bar>p\<bar>" and hi: "\<bar>p\<bar> \<le> 10 ^ 30" by simp_all
  have pi3: "2 \<le> pi" "pi \<le> 4" using pi_ge_two pi_less_4 by simp_all
  have a: "toDouble (p * (36 / 10)) = Num (p * (36 / 10))"
    by (rule scaled_moderate[OF lo hi]) simp_all
  have eb: "p * ((36 / 10) * pi) = p * (36 / 10) * pi" by (simp only: mult.assoc)
  have "toDouble (p * ((36 / 10) * pi)) = Num (p * ((36 / 10) * pi))"
    by (rule scaled_moderate[OF lo hi]) (use pi3 in simp_all)
  then have b: "toDouble (p * (36 / 10) * pi) = Num (p * (36 / 10) * pi)"
    unfolding eb .
  have ec: "p * ((36 / 10) * pi / 180) = p * (36 / 10) * pi / 180"
    by (simp only: mult.assoc times_divide_eq_right)
  have "toDouble (p * ((36 / 10) * pi / 180)) = Num (p * ((36 / 10) * pi / 180))"
    by (rule scaled_moderate[OF lo hi]) (use pi3 in simp_all)
  then have c: "toDouble (p * (36 / 10) * pi / 180) = Num (p * (36 / 10) * pi / 180)"
    unfolding ec .
  from a have "js_mul (Num p) (Num (36 / 10)) = Num (p * (36 / 10))" by (simp only: js_mul.simps)
  moreover from b have "js_mul (Num (p * (36 / 10))) (Num pi) = Num (p * (36 / 10) * pi)"
    by (simp only: js_mul.simps)
  moreover from c have "js_div (Num (p * (36 / 10) * pi)) (Num 180) = Num (p * (36 / 10) * pi / 180)"
    by (simp only: js_div.simps) simp
  ultimately show ?thesis by (simp only: radiansOf_def Let_def)
qed

lemma radiansOf_zero [simp]: "radiansOf (Num 0) = Num 0"
  by (simp add: radiansOf_moderate)

lemma radiansOf_full [simp]: "radiansOf (Num 100) = Num (2 * pi)"
  by (simp add: radiansOf_moderate)

lemma radiansOf_infinite [simp]: "radiansOf NegInf = NegInf" "radiansOf PosInf = PosInf" "radiansOf NaN = NaN"
  by (simp_all add: radiansOf_def)

subsection \<open>Percentages and angles of whole and of tiny numbers\<close>

lemma calcPercent_overflow:
  "d \<le> x \<Longrightarrow> calcPercent (Num x) (Num d) ov = ov"
  by (simp add: calcPercent_def js_ge_def)

lemma calcPercent_NaN_value [simp]: "calcPercent NaN d ov = NaN"
  by (cases d) (simp_all add: calcPercent_def js_ge_def)

lemma calcPercent_NaN_total [simp]: "calcPercent v NaN ov = NaN"
  by (cases v) (simp_all add: calcPercent_def js_ge_def)

lemma calcPercent_zero_span:
  "x < 0 \<Longrightarrow> calcPercent (Num x) (Num 0) ov = NegInf"
  by (simp add: calcPercent_def js_ge_def)

lemma hundredth:
  assumes "1 \<le> d"
  shows "js_div (Num d) (Num 100) = PosInf \<or> js_div (Num d) (Num 100) = Num (d / 100)"
proof -
  have "(1::real) / 2 ^ 1022 \<le> 1 / 100" by simp
  with assms have "\<not> \<bar>d / 100\<bar> < 1 / 2 ^ 1022" by simp
  moreover from assms have "\<not> d / 100 \<le> - (2 ^ 1024 - 2 ^ 970)" by simp
  ultimately show ?thesis by (simp add: toDouble_def)
qed

lemma hundredth_moderate:
  assumes "1 \<le> d" and "d \<le> 10 ^ 18"
  shows "js_div (Num d) (Num 100) = Num (d / 100)"
proof -
  have "toDouble (d / 100) = Num (d / 100)"
    by (rule toDouble_moderate) (use assms in simp_all)
  then show ?thesis by simp
qed

lemma calcPercent_below:
  assumes "1 \<le> d" and "x < d"
  shows "js_le (calcPercent (Num x) (Num d) ov) (Num 100)"
proof -
  from assms have cp: "calcPercent (Num x) (Num d) ov = js_div (Num x) (js_div (Num d) (Num 100))"
    by (simp add: calcPercent_def js_ge_def)
  from hundredth[OF assms(1)] show ?thesis
  proof
    assume "js_div (Num d) (Num 100) = PosInf"
    with cp show ?thesis by simp
  next
    assume q: "js_div (Num d) (Num 100) = Num (d / 100)"
    from assms have "x / (d / 100) \<le> 100" by (simp add: field_simps)
    from toDouble_mono[OF this] have "js_le (toDouble (x / (d / 100))) (Num 100)"
      by (simp add: toDouble_moderate)
    with cp q assms(1) show ?thesis by simp
  qed
qed

lemma calcPercent_below_mono:
  assumes "1 \<le> d" and "x1 \<le> x2" and "x2 < d"
  shows "js_le (calcPercent (Num x1) (Num d) ov1) (calcPercent (Num x2) (Num d) ov2)"
proof -
  from assms have cp: "calcPercent (Num x1) (Num d) ov1 = js_div (Num x1) (js_div (Num d) (Num 100))"
    "calcPercent (Num x2) (Num d) ov2 = js_div (Num x2) (js_div (Num d) (Num 100))"
    by (simp_all add: calcPercent_def js_ge_def)
  from hundredth[OF assms(1)] show ?thesis
  proof
    assume "js_div (Num d) (Num 100) = PosInf"
    with cp show ?thesis by simp
  next
    assume q: "js_div (Num d) (Num 100) = Num (d / 100)"
    from assms have "x1 / (d / 100) \<le> x2 / (d / 100)" by (simp add: divide_right_mono)
    from toDouble_mono[OF this] cp q assms(1) show ?thesis by simp
  qed
qed

lemma calcPercent_nonneg:
  assumes "1 \<le> d" and "0 \<le> x" and "x < d"
  shows "js_le (Num 0) (calcPercent (Num x) (Num d) ov)"
proof -
  from assms have "0 < d" by simp
  then have "calcPercent (Num 0) (Num d) ov = js_div (Num 0) (js_div (Num d) (Num 100))"
    by (simp add: calcPercent_def js_ge_def)
  with hundredth[OF assms(1)] assms(1) have "calcPercent (Num 0) (Num d) ov = Num 0" by auto
  with calcPercent_below_mono[OF assms(1) assms(2) assms(3), of ov ov] show ?thesis by simp
qed

lemma calcPercent_moderate:
  assumes "x < d" and "1 \<le> d" and "d \<le> 10 ^ 18" and "x = 0 \<or> (1 \<le> \<bar>x\<bar> \<and> \<bar>x\<bar> \<le> 10 ^ 18)"
  shows "calcPercent (Num x) (Num d) ov = Num (x / (d / 100))"
proof -
  from assms(1,2) hundredth_moderate[OF assms(2,3)]
  have cp: "calcPercent (Num x) (Num d) ov = js_div (Num x) (Num (d / 100))"
    by (simp add: calcPercent_def js_ge_def)
  show ?thesis
  proof (cases "x = 0")
    case True
    with cp assms(2) show ?thesis by simp
  next
    case False
    with assms(4) have x: "1 \<le> \<bar>x\<bar>" "\<bar>x\<bar> \<le> 10 ^ 18" by simp_all
    have eq: "\<bar>x / (d / 100)\<bar> = \<bar>x\<bar> * 100 / d" using assms(2) by (simp add: abs_mult)
    have "toDouble (x / (d / 100)) = Num (x / (d / 100))"
    proof (rule toDouble_moderate)
      from x(1) assms(2,3) have "1 * 100 / 10 ^ 18 \<le> \<bar>x\<bar> * 100 / d"
        by (intro frac_le mult_mono) simp_all
      moreover have "(1::real) / 10 ^ 30 \<le> 1 * 100 / 10 ^ 18" by simp
      ultimately show "1 / 10 ^ 30 \<le> \<bar>x / (d / 100)\<bar>" unfolding eq by linarith
      from x(2) assms(2) have "\<bar>x\<bar> * 100 / d \<le> 10 ^ 18 * 100 / 1"
        by (intro frac_le mult_mono) simp_all
      moreover have "(10::real) ^ 18 * 100 / 1 \<le> 10 ^ 40" by simp
      ultimately show "\<bar>x / (d / 100)\<bar> \<le> 10 ^ 40" unfolding eq by linarith
    qed
    with cp assms(2) show ?thesis by simp
  qed
qed

lemma percent_mono:
  assumes "d = 0 \<or> 1 \<le> d" and "x1 \<le> x2"
  shows "js_le (calcPercent (Num x1) (Num d) (Num 100)) (calcPercent (Num x2) (Num d) (Num 100))"
proof (cases "d \<le> x2")
  case over2: True
  show ?thesis
  proof (cases "d \<le> x1")
    case True
    with over2 show ?thesis by (simp add: calcPercent_overflow)
  next
    case False
    show ?thesis
    proof (cases "d = 0")
      case True
      with False over2 show ?thesis by (simp add: calcPercent_overflow calcPercent_zero_span)
    next
      case False
      with assms(1) have "1 \<le> d" by simp
      from calcPercent_below[OF this, of x1 "Num 100"] \<open>\<not> d \<le> x1\<close> over2 show ?thesis
        by (simp add: calcPercent_overflow)
    qed
  qed
next
  case under2: False
  show ?thesis
  proof (cases "d = 0")
    case True
    with under2 assms(2) show ?thesis by (simp add: calcPercent_zero_span)
  next
    case False
    with assms(1) have "1 \<le> d" by simp
    from calcPercent_below_mono[OF this assms(2)] under2 show ?thesis by simp
  qed
qed

lemma percent_start_end:
  assumes "d = 0 \<or> 1 \<le> d" and "x1 \<le> x2"
  shows "js_le (calcPercent (Num x1) (Num d) (Num 0)) (calcPercent (Num x2) (Num d) (Num 100))"
proof (cases "d \<le> x1")
  case True
  with assms(2) show ?thesis by (simp add: calcPercent_overflow)
next
  case under1: False
  show ?thesis
  proof (cases "d = 0")
    case True
    with under1 have a: "calcPercent (Num x1) (Num d) (Num 0) = NegInf"
      by (simp add: calcPercent_zero_span)
    from True have "calcPercent (Num x2) (Num d) (Num 100) \<noteq> NaN"
      by (cases "0 \<le> x2") (simp_all add: calcPercent_overflow calcPercent_zero_span)
    with a show ?thesis by simp
  next
    case False
    with assms(1) have d: "1 \<le> d" by simp
    show ?thesis
    proof (cases "d \<le> x2")
      case True
      with calcPercent_below[OF d, of x1 "Num 0"] under1 show ?thesis
        by (simp add: calcPercent_overflow)
    next
      case False
      with calcPercent_below_mono[OF d assms(2)] show ?thesis by simp
    qed
  qed
qed

lemma radians_mono_whole:
  assumes "d = 0 \<or> 1 \<le> d" and "x1 \<le> x2"
  shows "js_le (calcTaskRadians (Num x1) (Num d) False) (calcTaskRadians (Num x2) (Num d) False)"
  using percent_mono[OF assms] by (simp add: calcTaskRadians_radiansOf radiansOf_mono)

lemma angles_ordered:
  assumes "d = 0 \<or> 1 \<le> d" and "x1 \<le> x2"
  shows "js_le (calcTaskRadians (Num x1) (Num d) True) (calcTaskRadians (Num x2) (Num d) False)"
  using percent_start_end[OF assms] by (simp add: calcTaskRadians_radiansOf radiansOf_mono)

lemma calcTaskRadians_overflow:
  "d \<le> v \<Longrightarrow> calcTaskRadians (Num v) (Num d) False = Num (2 * pi)"
  "d \<le> v \<Longrightarrow> calcTaskRadians (Num v) (Num d) True = Num 0"
  by (simp_all add: calcTaskRadians_radiansOf calcPercent_overflow)

lemma whole_span: "0 \<le> (n::int) \<Longrightarrow> real_of_int n = 0 \<or> 1 \<le> real_of_int n"
  by (cases "n = 0") simp_all

lemma toDouble_subnormal:
  assumes "\<bar>k\<bar> < 2 ^ 52"
  shows "toDouble (k / 2 ^ 1074) = Num (real_of_int (rne k) / 2 ^ 1074)"
proof -
  have u: "(2::real) ^ 1074 = 2 ^ 1022 * 2 ^ 52" by (simp add: power_add [symmetric])
  from assms have "\<bar>k\<bar> / 2 ^ 1074 < 2 ^ 52 / 2 ^ 1074" by (simp add: divide_strict_right_mono)
  also have "(2::real) ^ 52 / 2 ^ 1074 = 1 / 2 ^ 1022" by (simp add: u)
  finally have small: "\<bar>k / 2 ^ 1074\<bar> < 1 / 2 ^ 1022" by simp
  have "(1::real) / 2 ^ 1022 < 2 ^ 1024 - 2 ^ 970" by simp
  with small have "\<not> 2 ^ 1024 - 2 ^ 970 \<le> k / 2 ^ 1074" "\<not> k / 2 ^ 1074 \<le> - (2 ^ 1024 - 2 ^ 970)"
    by linarith+
  moreover have "k / 2 ^ 1074 * 2 ^ 1074 = k" by simp
  ultimately show ?thesis using small by (simp only: toDouble_def if_True if_False)
qed

lemma rne_small: "rne (1 / 100) = 0" "rne (16 / 100) = 0" "rne (20 / 100) = 0"
  by (simp_all add: rne_def)

lemma tiny_hundredth:
  assumes "\<bar>k\<bar> < 2 ^ 52" and "rne (k / 100) = 0"
  shows "js_div (Num (k / 2 ^ 1074)) (Num 100) = Num 0"
proof -
  from assms(1) have "\<bar>k / 100\<bar> < 2 ^ 52" by simp
  from toDouble_subnormal[OF this] assms(2)
  have "toDouble (k / 100 / 2 ^ 1074) = Num 0" by (simp only: of_int_0 div_0)
  moreover have "k / 2 ^ 1074 / 100 = k / 100 / 2 ^ 1074"
    by (simp only: divide_divide_eq_left mult.commute)
  moreover have "js_div (Num (k / 2 ^ 1074)) (Num 100) = toDouble (k / 2 ^ 1074 / 100)"
    by simp
  ultimately show ?thesis by (simp only:)
qed

lemma tiny_hundredths:
  "js_div (Num (1 / 2 ^ 1074)) (Num 100) = Num 0"
  "js_div (Num (16 / 2 ^ 1074)) (Num 100) = Num 0"
  "js_div (Num (20 / 2 ^ 1074)) (Num 100) = Num 0"
  by (rule tiny_hundredth, simp, rule rne_small)+

lemma calcPercent_lost_divisor:
  assumes "0 \<le> x" and "x < d" and "js_div (Num d) (Num 100) = Num 0"
  shows "calcPercent (Num x) (Num d) ov = (if x = 0 then NaN else PosInf)"
  using assms by (simp add: calcPercent_def js_ge_def)

lemma tiny_positive: "(0::real) < 1 / 2 ^ 1074" "(1::real) / 2 ^ 1074 < 16 / 2 ^ 1074"
  "(1::real) / 2 ^ 1074 < 20 / 2 ^ 1074" "(0::real) < 16 / 2 ^ 1074"
  by (simp_all add: divide_strict_right_mono)

subsection \<open>The scan of the layers\<close>

lemma scanLayers_result:
  "scanLayers lys task l = (task', lys') \<Longrightarrow>
     (task' = task \<and> lys' = lys \<and> (\<forall>k. l \<le> k \<and> k < length lys \<longrightarrow> \<not> list_all (hasRoomFor task) (lys ! k)))
   \<or> (\<exists>k. l \<le> k \<and> k < length lys \<and> task' = task\<lparr>layer := int k\<rparr>
          \<and> lys' = lys[k := lys ! k @ [task']]
          \<and> list_all (hasRoomFor task) (lys ! k)
          \<and> (\<forall>j. l \<le> j \<and> j < k \<longrightarrow> \<not> list_all (hasRoomFor task) (lys ! j)))"
proof (induction lys task l arbitrary: task' lys' rule: scanLayers.induct)
  case (1 lys task l)
  show ?case
  proof (cases "l < length lys")
    case False
    with "1.prems" show ?thesis by (auto simp: scanLayers.simps[of lys task l])
  next
    case inrange: True
    show ?thesis
    proof (cases "list_all (hasRoomFor task) (lys ! l)")
      case True
      with inrange "1.prems" have "task' = task\<lparr>layer := int l\<rparr>" "lys' = lys[l := lys ! l @ [task']]"
        by (auto simp: scanLayers.simps[of lys task l] Let_def)
      with True inrange show ?thesis by auto
    next
      case False
      with inrange "1.prems" have next_eq: "scanLayers lys task (l + 1) = (task', lys')"
        by (simp add: scanLayers.simps[of lys task l])
      from "1.IH"[OF inrange refl False next_eq]
      show ?thesis
      proof (elim disjE conjE exE)
        assume a: "task' = task" "lys' = lys" "\<forall>k. l + 1 \<le> k \<and> k < length lys \<longrightarrow> \<not> list_all (hasRoomFor task) (lys ! k)"
        have "\<forall>k. l \<le> k \<and> k < length lys \<longrightarrow> \<not> list_all (hasRoomFor task) (lys ! k)"
        proof (intro allI impI)
          fix k assume "l \<le> k \<and> k < length lys"
          then show "\<not> list_all (hasRoomFor task) (lys ! k)" using a(3) False by (cases "k = l") auto
        qed
        with a show ?thesis by blast
      next
        fix k assume a: "l + 1 \<le> k" "k < length lys" "task' = task\<lparr>layer := int k\<rparr>"
          "lys' = lys[k := lys ! k @ [task']]" "list_all (hasRoomFor task) (lys ! k)"
          "\<forall>j. l + 1 \<le> j \<and> j < k \<longrightarrow> \<not> list_all (hasRoomFor task) (lys ! j)"
        have "\<forall>j. l \<le> j \<and> j < k \<longrightarrow> \<not> list_all (hasRoomFor task) (lys ! j)"
        proof (intro allI impI)
          fix j assume "l \<le> j \<and> j < k"
          then show "\<not> list_all (hasRoomFor task) (lys ! j)" using a(6) False by (cases "j = l") auto
        qed
        with a show ?thesis by (intro disjI2 exI[of _ k]) auto
      qed
    qed
  qed
qed

lemma assignLayer_compress:
  assumes "assignLayer True i task lys = (task', lys')" and "layer task = - 1"
  shows "(\<exists>k < length lys. task' = task\<lparr>layer := int k\<rparr>
            \<and> lys' = lys[k := lys ! k @ [task']]
            \<and> list_all (hasRoomFor task) (lys ! k)
            \<and> (\<forall>j < k. \<not> list_all (hasRoomFor task) (lys ! j)))
       \<or> (task' = task\<lparr>layer := int (length lys)\<rparr> \<and> lys' = lys @ [[task']]
            \<and> (\<forall>k < length lys. \<not> list_all (hasRoomFor task) (lys ! k)))"
proof -
  obtain task1 lys1 where sc: "scanLayers lys task 0 = (task1, lys1)"
    by (cases "scanLayers lys task 0")
  from scanLayers_result[OF sc] show ?thesis
  proof (elim disjE conjE exE)
    assume a: "task1 = task" "lys1 = lys"
      "\<forall>k. 0 \<le> k \<and> k < length lys \<longrightarrow> \<not> list_all (hasRoomFor task) (lys ! k)"
    with assms sc have "task' = task\<lparr>layer := int (length lys)\<rparr>" "lys' = lys @ [[task']]"
      by (auto simp: assignLayer_def Let_def)
    with a(3) show ?thesis by simp
  next
    fix k assume a: "0 \<le> k" "k < length lys" "task1 = task\<lparr>layer := int k\<rparr>"
      "lys1 = lys[k := lys ! k @ [task1]]" "list_all (hasRoomFor task) (lys ! k)"
      "\<forall>j. 0 \<le> j \<and> j < k \<longrightarrow> \<not> list_all (hasRoomFor task) (lys ! j)"
    with assms sc have "task' = task1" "lys' = lys1"
      by (auto simp: assignLayer_def)
    with a show ?thesis by (intro disjI1 exI[of _ k]) auto
  qed
qed

lemma newTask_layer: "layer (newTask clock start duration starts ends nm i) = - 1"
  by (simp add: newTask_def Let_def)

lemma hasRoomFor_layer [simp]: "hasRoomFor (task\<lparr>layer := k\<rparr>) t = hasRoomFor task t"
  by (simp add: hasRoomFor_def)

lemma layered_step:
  assumes inv: "layered lys placed" and asg: "assignLayer True i task lys = (task', lys')"
    and fresh: "layer task = - 1"
  shows "layered lys' (placed @ [task'])"
proof -
  from inv have mem: "\<And>t. t \<in> set placed \<Longrightarrow> 0 \<le> layer t \<and> layer t < int (length lys) \<and> t \<in> set (lys ! nat (layer t))"
    and pw: "\<And>i j. i < j \<Longrightarrow> j < length placed \<Longrightarrow> layer (placed ! i) = layer (placed ! j) \<Longrightarrow> hasRoomFor (placed ! j) (placed ! i)"
    by (auto simp: layered_def)
  from assignLayer_compress[OF asg fresh] show ?thesis
  proof (elim disjE conjE exE)
    fix k assume a: "k < length lys" "task' = task\<lparr>layer := int k\<rparr>"
      "lys' = lys[k := lys ! k @ [task']]" "list_all (hasRoomFor task) (lys ! k)"
    have m: "\<forall>t \<in> set (placed @ [task']). 0 \<le> layer t \<and> layer t < int (length lys') \<and> t \<in> set (lys' ! nat (layer t))"
    proof
      fix t assume "t \<in> set (placed @ [task'])"
      then consider "t \<in> set placed" | "t = task'" by auto
      then show "0 \<le> layer t \<and> layer t < int (length lys') \<and> t \<in> set (lys' ! nat (layer t))"
      proof cases
        case 1
        from mem[OF 1] a show ?thesis by (cases "nat (layer t) = k") (auto simp: nth_list_update)
      next
        case 2
        with a show ?thesis by simp
      qed
    qed
    have p: "\<forall>i j. i < j \<and> j < length (placed @ [task']) \<and> layer ((placed @ [task']) ! i) = layer ((placed @ [task']) ! j)
          \<longrightarrow> hasRoomFor ((placed @ [task']) ! j) ((placed @ [task']) ! i)"
    proof (intro allI impI, elim conjE)
      fix i j assume ij: "i < j" "j < length (placed @ [task'])"
        and same: "layer ((placed @ [task']) ! i) = layer ((placed @ [task']) ! j)"
      show "hasRoomFor ((placed @ [task']) ! j) ((placed @ [task']) ! i)"
      proof (cases "j < length placed")
        case True
        with ij same pw[of i j] show ?thesis by (simp add: nth_append)
      next
        case False
        with ij have j: "j = length placed" and i: "i < length placed" by auto
        from i have di: "placed ! i \<in> set placed" by simp
        from same j i a have "layer (placed ! i) = int k" by (simp add: nth_append)
        with mem[OF di] have "placed ! i \<in> set (lys ! k)" by simp
        with a(4) have "hasRoomFor task (placed ! i)" by (simp add: list_all_iff)
        with j i a show ?thesis by (simp add: nth_append)
      qed
    qed
    from m p show ?thesis unfolding layered_def by blast
  next
    assume a: "task' = task\<lparr>layer := int (length lys)\<rparr>" "lys' = lys @ [[task']]"
    have m: "\<forall>t \<in> set (placed @ [task']). 0 \<le> layer t \<and> layer t < int (length lys') \<and> t \<in> set (lys' ! nat (layer t))"
    proof
      fix t assume "t \<in> set (placed @ [task'])"
      then consider "t \<in> set placed" | "t = task'" by auto
      then show "0 \<le> layer t \<and> layer t < int (length lys') \<and> t \<in> set (lys' ! nat (layer t))"
      proof cases
        case 1
        from mem[OF 1] a show ?thesis by (auto simp: nth_append)
      next
        case 2
        with a show ?thesis by simp
      qed
    qed
    have p: "\<forall>i j. i < j \<and> j < length (placed @ [task']) \<and> layer ((placed @ [task']) ! i) = layer ((placed @ [task']) ! j)
          \<longrightarrow> hasRoomFor ((placed @ [task']) ! j) ((placed @ [task']) ! i)"
    proof (intro allI impI, elim conjE)
      fix i j assume ij: "i < j" "j < length (placed @ [task'])"
        and same: "layer ((placed @ [task']) ! i) = layer ((placed @ [task']) ! j)"
      show "hasRoomFor ((placed @ [task']) ! j) ((placed @ [task']) ! i)"
      proof (cases "j < length placed")
        case True
        with ij same pw[of i j] show ?thesis by (simp add: nth_append)
      next
        case False
        with ij have j: "j = length placed" and i: "i < length placed" by auto
        from i have di: "placed ! i \<in> set placed" by simp
        from same j i a have "layer (placed ! i) = int (length lys)" by (simp add: nth_append)
        with mem[OF di] show ?thesis by simp
      qed
    qed
    from m p show ?thesis unfolding layered_def by blast
  qed
qed

lemma layered_mapTasks:
  "layered lys placed \<Longrightarrow> mapTasks True clock start duration starts ends i names lys = (ts, lys')
     \<Longrightarrow> layered lys' (placed @ ts)"
proof (induction names arbitrary: i lys placed ts lys')
  case Nil
  then show ?case by simp
next
  case (Cons nm rest)
  obtain task lys1 where asg: "assignLayer True i (newTask clock start duration starts ends nm i) lys = (task, lys1)"
    by (cases "assignLayer True i (newTask clock start duration starts ends nm i) lys")
  obtain ts1 lys2 where rec: "mapTasks True clock start duration starts ends (i + 1) rest lys1 = (ts1, lys2)"
    by (cases "mapTasks True clock start duration starts ends (i + 1) rest lys1")
  from Cons.prems(2) asg rec have eq: "ts = task # ts1" "lys' = lys2" by auto
  from layered_step[OF Cons.prems(1) asg newTask_layer] have "layered lys1 (placed @ [task])" .
  from Cons.IH[OF this rec] eq show ?case by simp
qed

lemma layered_init: "layered [[]] []"
  by (simp add: layered_def)

lemma hasRoomFor_sym: "hasRoomFor a b = hasRoomFor b a"
  by (auto simp: hasRoomFor_def js_ge_def)

lemma buildGantTasks_Inr:
  assumes "buildGantTasks gantt clock names starts ends = Inr g'"
  obtains s e ts lys where
    "reduce minDate starts = Inr s" "reduce maxDate ends = Inr e"
    "mapTasks (compress gantt) clock (valueOf s) (js_abs (js_sub (valueOf e) (valueOf s)))
       starts ends 0 names [[]] = (ts, lys)"
    "tasks g' = ts" "layers g' = (if compress gantt then length lys else length ts)"
proof -
  from assms obtain s where s: "reduce minDate starts = Inr s"
    by (cases "reduce minDate starts") (auto simp: buildGantTasks_def)
  from assms s obtain e where e: "reduce maxDate ends = Inr e"
    by (cases "reduce maxDate ends") (auto simp: buildGantTasks_def)
  obtain ts lys where m: "mapTasks (compress gantt) clock (valueOf s)
      (js_abs (js_sub (valueOf e) (valueOf s))) starts ends 0 names [[]] = (ts, lys)"
    by (cases "mapTasks (compress gantt) clock (valueOf s)
      (js_abs (js_sub (valueOf e) (valueOf s))) starts ends 0 names [[]]")
  from assms s e m have "tasks g' = ts" "layers g' = (if compress gantt then length lys else length ts)"
    by (auto simp: buildGantTasks_def Let_def)
  with s e m that show thesis by blast
qed

subsection \<open>Compressed layout: tasks on one layer do not overlap\<close>

text \<open>
  Claim C1. When the chart is built with the compress flag set, any two tasks that
  received the same layer index pass the test of line 451 against each other, in either
  order: the start angle of one is at least the end angle of the other, or its end angle
  is at most the other's start angle.
\<close>

theorem compress_layers_disjoint:
  assumes "buildGantTasks gantt clock names starts ends = Inr g'" and "compress gantt"
    and "i < j" and "j < length (tasks g')" and "layer (tasks g' ! i) = layer (tasks g' ! j)"
  shows "hasRoomFor (tasks g' ! j) (tasks g' ! i) \<and> hasRoomFor (tasks g' ! i) (tasks g' ! j)"
proof -
  from assms(1) obtain s e ts lys where
    m: "mapTasks (compress gantt) clock (valueOf s) (js_abs (js_sub (valueOf e) (valueOf s)))
       starts ends 0 names [[]] = (ts, lys)" and ts: "tasks g' = ts"
    by (rule buildGantTasks_Inr)
  from m assms(2) layered_mapTasks[OF layered_init, of clock "valueOf s" _ starts ends 0 names ts lys]
  have "layered lys ts" by simp
  with assms(3-5) ts have "hasRoomFor (tasks g' ! j) (tasks g' ! i)"
    unfolding layered_def by blast
  then show ?thesis using hasRoomFor_sym by blast
qed

lemmas eval_defs = buildGantTasks_def reduce_def minDate_def maxDate_def js_gt_def js_ge_def
  newTask_def dateAt_def assignLayer_def calcTaskRadians_radiansOf calcPercent_overflow
  calcPercent_moderate calcPercent_zero_span radiansOf_moderate hasRoomFor_def
  initialGantt_def epochClock_def Let_def scanLayers.simps

lemma sample_compressed:
  "buildGantTasks (initialGantt True) epochClock sampleNames sampleStarts sampleEnds =
     Inr \<lparr>tasks =
            [\<lparr>name = ''a'', startAngle = Num 0, endAngle = Num pi, layer = 0, taskProgress = Num 0\<rparr>,
             \<lparr>name = ''b'', startAngle = Num pi, endAngle = Num (2 * pi), layer = 0, taskProgress = Num 0\<rparr>,
             \<lparr>name = ''c'', startAngle = Num (2 * pi / 5), endAngle = Num (7 * pi / 5), layer = 1,
                taskProgress = Num 0\<rparr>],
          layers = 2, compress = True, progress = Num 0, progressAngle = Num 0\<rparr>"
  by (simp add: eval_defs sampleNames_def sampleStarts_def sampleEnds_def)

theorem compress_layers_disjoint_witness:
  "compress (initialGantt True) \<and>
   (case buildGantTasks (initialGantt True) epochClock sampleNames sampleStarts sampleEnds of
      Inl e \<Rightarrow> False
    | Inr g \<Rightarrow> 1 < length (tasks g) \<and> layer (tasks g ! 0) = layer (tasks g ! 1)
         \<and> hasRoomFor (tasks g ! 1) (tasks g ! 0) \<and> hasRoomFor (tasks g ! 0) (tasks g ! 1))"
proof -
  have c: "compress (initialGantt True)" by (simp add: initialGantt_def)
  from compress_layers_disjoint [where i = 0 and j = 1, OF sample_compressed c] c show ?thesis
    by (simp add: sample_compressed)
qed

subsection \<open>Plain layout: one layer per task\<close>

lemma mapTasks_plain:
  "mapTasks False clock start duration starts ends i names lys = (ts, lys') \<Longrightarrow>
     lys' = lys \<and> length ts = length names \<and> (\<forall>k < length ts. layer (ts ! k) = int (i + k))"
proof (induction names arbitrary: i ts lys')
  case Nil
  then show ?case by simp
next
  case (Cons nm rest)
  obtain ts1 lys2 where rec: "mapTasks False clock start duration starts ends (i + 1) rest lys = (ts1, lys2)"
    by (cases "mapTasks False clock start duration starts ends (i + 1) rest lys")
  from Cons.prems rec have eq: "ts = (newTask clock start duration starts ends nm i)\<lparr>layer := int i\<rparr> # ts1" "lys' = lys2"
    by (auto simp: assignLayer_def)
  from Cons.IH[OF rec] have ih: "lys2 = lys" "length ts1 = length rest" "\<forall>k < length ts1. layer (ts1 ! k) = int (i + 1 + k)"
    by auto
  have "\<forall>k < length ts. layer (ts ! k) = int (i + k)"
  proof (intro allI impI)
    fix k assume "k < length ts"
    with eq ih show "layer (ts ! k) = int (i + k)" by (cases k) auto
  qed
  with eq ih show ?case by simp
qed

text \<open>
  Claim C4. When the chart is built with the compress flag clear, there is one task per
  name, the layer of each task is its index in the input, and the layer count of the chart
  is the number of tasks.
\<close>

theorem plain_layer_is_index:
  assumes "buildGantTasks gantt clock names starts ends = Inr g'" and "\<not> compress gantt"
  shows "length (tasks g') = length names \<and> (\<forall>k < length (tasks g'). layer (tasks g' ! k) = int k)
     \<and> layers g' = length (tasks g')"
proof -
  from assms(1) obtain s e ts lys where
    m: "mapTasks (compress gantt) clock (valueOf s) (js_abs (js_sub (valueOf e) (valueOf s)))
       starts ends 0 names [[]] = (ts, lys)" and ts: "tasks g' = ts"
    and ly: "layers g' = (if compress gantt then length lys else length ts)"
    by (rule buildGantTasks_Inr)
  from m assms(2) have "mapTasks False clock (valueOf s) (js_abs (js_sub (valueOf e) (valueOf s)))
       starts ends 0 names [[]] = (ts, lys)" by simp
  from mapTasks_plain[OF this] ts ly assms(2) show ?thesis by simp
qed

lemma sample_plain:
  "buildGantTasks (initialGantt False) epochClock sampleNames sampleStarts sampleEnds =
     Inr \<lparr>tasks =
            [\<lparr>name = ''a'', startAngle = Num 0, endAngle = Num pi, layer = 0, taskProgress = Num 0\<rparr>,
             \<lparr>name = ''b'', startAngle = Num pi, endAngle = Num (2 * pi), layer = 1, taskProgress = Num 0\<rparr>,
             \<lparr>name = ''c'', startAngle = Num (2 * pi / 5), endAngle = Num (7 * pi / 5), layer = 2,
                taskProgress = Num 0\<rparr>],
          layers = 3, compress = False, progress = Num 0, progressAngle = Num 0\<rparr>"
  by (simp add: eval_defs sampleNames_def sampleStarts_def sampleEnds_def)

theorem plain_layer_is_index_witness:
  "\<not> compress (initialGantt False) \<and>
   (case buildGantTasks (initialGantt False) epochClock sampleNames sampleStarts sampleEnds of
      Inl e \<Rightarrow> False
    | Inr g \<Rightarrow> length (tasks g) = 3 \<and> map layer (tasks g) = [0, 1, 2] \<and> layers g = 3)"
proof -
  have c: "\<not> compress (initialGantt False)" by (simp add: initialGantt_def)
  from plain_layer_is_index [OF sample_plain c] c show ?thesis
    by (simp add: sample_plain)
qed

subsection \<open>Compressed layout: first fit in input order\<close>

lemma hasRoomFor_noOverlap: "hasRoomFor task t = noOverlap (arcOf t) (arcOf task)"
  by (simp add: hasRoomFor_def noOverlap_def arcOf_def)

lemma list_all_hasRoomFor:
  "list_all (hasRoomFor task) ly = list_all (\<lambda>e. noOverlap e (arcOf task)) (map arcOf ly)"
  by (simp add: list_all_iff hasRoomFor_noOverlap)

lemma firstQualifying_found:
  "k < length ls \<Longrightarrow> list_all (\<lambda>e. noOverlap e a) (ls ! k)
     \<Longrightarrow> \<forall>j < k. \<not> list_all (\<lambda>e. noOverlap e a) (ls ! j)
     \<Longrightarrow> firstQualifying ls a = Some k"
proof (induction ls arbitrary: k)
  case Nil
  then show ?case by simp
next
  case (Cons ly rest)
  show ?case
  proof (cases k)
    case 0
    with Cons.prems show ?thesis by simp
  next
    case (Suc k')
    with Cons.prems have head: "\<not> list_all (\<lambda>e. noOverlap e a) ly" by auto
    from Suc Cons.prems have "k' < length rest" "list_all (\<lambda>e. noOverlap e a) (rest ! k')"
      "\<forall>j < k'. \<not> list_all (\<lambda>e. noOverlap e a) (rest ! j)" by auto
    from Cons.IH[OF this] head Suc show ?thesis by simp
  qed
qed

lemma firstQualifying_none:
  "\<forall>k < length ls. \<not> list_all (\<lambda>e. noOverlap e a) (ls ! k) \<Longrightarrow> firstQualifying ls a = None"
proof (induction ls)
  case Nil
  then show ?case by simp
next
  case (Cons ly rest)
  from Cons.prems have "\<not> list_all (\<lambda>e. noOverlap e a) ly" by auto
  moreover from Cons.prems have "\<forall>k < length rest. \<not> list_all (\<lambda>e. noOverlap e a) (rest ! k)" by auto
  ultimately show ?case using Cons.IH by simp
qed

lemma arcOf_layer [simp]: "arcOf (t\<lparr>layer := k\<rparr>) = arcOf t"
  by (simp add: arcOf_def)

lemma assignLayer_firstFit:
  assumes asg: "assignLayer True i task lys = (task', lys')" and fresh: "layer task = - 1"
  shows "firstFit (map (map arcOf) lys) (arcOf task # as) =
           (case firstFit (map (map arcOf) lys') as of (ks, ls') \<Rightarrow> (nat (layer task') # ks, ls'))
         \<and> arcOf task' = arcOf task \<and> 0 \<le> layer task'"
proof -
  let ?ls = "map (map arcOf) lys" and ?a = "arcOf task"
  from assignLayer_compress[OF asg fresh] show ?thesis
  proof (elim disjE conjE exE)
    fix k assume a: "k < length lys" "task' = task\<lparr>layer := int k\<rparr>"
      "lys' = lys[k := lys ! k @ [task']]" "list_all (hasRoomFor task) (lys ! k)"
      "\<forall>j < k. \<not> list_all (hasRoomFor task) (lys ! j)"
    have "firstQualifying ?ls ?a = Some k"
    proof (rule firstQualifying_found)
      show "k < length ?ls" using a(1) by simp
      show "list_all (\<lambda>e. noOverlap e ?a) (?ls ! k)" using a(1,4) by (simp add: list_all_hasRoomFor)
      show "\<forall>j < k. \<not> list_all (\<lambda>e. noOverlap e ?a) (?ls ! j)"
        using a(1,5) by (simp add: list_all_hasRoomFor)
    qed
    moreover have "map (map arcOf) lys' = ?ls[k := ?ls ! k @ [?a]]"
      using a(1,2,3) by (simp add: map_update)
    ultimately show ?thesis using a(2) by simp
  next
    assume a: "task' = task\<lparr>layer := int (length lys)\<rparr>" "lys' = lys @ [[task']]"
      "\<forall>k < length lys. \<not> list_all (hasRoomFor task) (lys ! k)"
    have "firstQualifying ?ls ?a = None"
      by (rule firstQualifying_none) (use a(3) in \<open>simp add: list_all_hasRoomFor\<close>)
    moreover have "map (map arcOf) lys' = ?ls @ [[?a]]" using a(1,2) by simp
    ultimately show ?thesis using a(1) by simp
  qed
qed

lemma mapTasks_firstFit:
  "mapTasks True clock start duration starts ends i names lys = (ts, lys') \<Longrightarrow>
     firstFit (map (map arcOf) lys) (map arcOf ts) = (map (\<lambda>t. nat (layer t)) ts, map (map arcOf) lys')
     \<and> (\<forall>t \<in> set ts. 0 \<le> layer t)"
proof (induction names arbitrary: i lys ts lys')
  case Nil
  then show ?case by simp
next
  case (Cons nm rest)
  obtain task lys1 where asg: "assignLayer True i (newTask clock start duration starts ends nm i) lys = (task, lys1)"
    by (cases "assignLayer True i (newTask clock start duration starts ends nm i) lys")
  obtain ts1 lys2 where rec: "mapTasks True clock start duration starts ends (i + 1) rest lys1 = (ts1, lys2)"
    by (cases "mapTasks True clock start duration starts ends (i + 1) rest lys1")
  from Cons.prems asg rec have eq: "ts = task # ts1" "lys' = lys2" by auto
  from assignLayer_firstFit[OF asg newTask_layer, of "map arcOf ts1"] Cons.IH[OF rec] eq
  show ?case by simp
qed

lemma firstFit_seed: "fst (firstFit [[]] as) = fst (firstFit [] as)"
  by (cases as) simp_all

lemma mapTasks_names:
  "mapTasks c clock start duration starts ends i names lys = (ts, lys') \<Longrightarrow> map name ts = names"
proof (induction names arbitrary: i lys ts lys')
  case Nil
  then show ?case by simp
next
  case (Cons nm rest)
  obtain task lys1 where asg: "assignLayer c i (newTask clock start duration starts ends nm i) lys = (task, lys1)"
    by (cases "assignLayer c i (newTask clock start duration starts ends nm i) lys")
  obtain ts1 lys2 where rec: "mapTasks c clock start duration starts ends (i + 1) rest lys1 = (ts1, lys2)"
    by (cases "mapTasks c clock start duration starts ends (i + 1) rest lys1")
  from Cons.prems asg rec have eq: "ts = task # ts1" by auto
  have "name task = nm"
  proof (cases c)
    case True
    with asg assignLayer_compress[OF _ newTask_layer] show ?thesis
      by (fastforce simp: newTask_def Let_def)
  next
    case False
    with asg show ?thesis by (auto simp: assignLayer_def newTask_def Let_def)
  qed
  with Cons.IH[OF rec] eq show ?case by simp
qed

text \<open>
  Claim C2. When the chart is built with the compress flag set, the tasks are those of
  the names in input order, and their layer indices are the ones first fit assigns to
  their arcs taken in that order: each arc goes to the first existing layer all of whose
  members pass the test against it, and to a new layer, whose index it receives, when no
  layer qualifies.
\<close>

theorem compress_is_first_fit:
  assumes "buildGantTasks gantt clock names starts ends = Inr g'" and "compress gantt"
  shows "map name (tasks g') = names \<and>
         map layer (tasks g') = map int (fst (firstFit [] (map arcOf (tasks g'))))"
proof -
  from assms(1) obtain s e ts lys where
    m: "mapTasks (compress gantt) clock (valueOf s) (js_abs (js_sub (valueOf e) (valueOf s)))
       starts ends 0 names [[]] = (ts, lys)" and ts: "tasks g' = ts"
    by (rule buildGantTasks_Inr)
  from m assms(2) have m': "mapTasks True clock (valueOf s) (js_abs (js_sub (valueOf e) (valueOf s)))
       starts ends 0 names [[]] = (ts, lys)" by simp
  from mapTasks_firstFit[OF m'] have ff: "fst (firstFit [[]] (map arcOf ts)) = map (\<lambda>t. nat (layer t)) ts"
    and nn: "\<forall>t \<in> set ts. 0 \<le> layer t" by simp_all
  from nn have "map layer ts = map int (map (\<lambda>t. nat (layer t)) ts)" by (induction ts) auto
  with ff firstFit_seed[of "map arcOf ts"] have "map layer ts = map int (fst (firstFit [] (map arcOf ts)))"
    by simp
  with mapTasks_names[OF m] ts show ?thesis by simp
qed

theorem compress_is_first_fit_witness:
  "compress (initialGantt True) \<and>
   (case buildGantTasks (initialGantt True) epochClock sampleNames sampleStarts sampleEnds of
      Inl e \<Rightarrow> False
    | Inr g \<Rightarrow> map name (tasks g) = sampleNames \<and> map layer (tasks g) = [0, 0, 1]
        \<and> fst (firstFit [] (map arcOf (tasks g))) = [0, 0, 1])"
proof -
  have c: "compress (initialGantt True)" by (simp add: initialGantt_def)
  have "fst (firstFit [] [(Num 0, Num pi), (Num pi, Num (2 * pi)), (Num (2 * pi / 5), Num (7 * pi / 5))]) = [0, 0, 1]"
    by (simp add: noOverlap_def js_ge_def)
  with compress_is_first_fit [OF sample_compressed c] c show ?thesis
    by (simp add: sample_compressed arcOf_def)
qed

subsection \<open>The layout does not depend on the clock\<close>

lemma newTask_arc:
  "arcOf (newTask clock1 start duration starts ends nm i) = arcOf (newTask clock2 start duration starts ends nm i)"
  by (simp add: newTask_def arcOf_def Let_def)

lemma assignLayer_arc:
  assumes "assignLayer c i task lys = (task', lys')" and "layer task = - 1"
  shows "arcOf task' = arcOf task"
proof (cases c)
  case True
  with assms assignLayer_compress[of i task lys task' lys'] show ?thesis by auto
next
  case False
  with assms show ?thesis by (auto simp: assignLayer_def)
qed

lemma mapTasks_arcs:
  "mapTasks c clock1 start duration starts ends i names lysA = (tsA, lysA') \<Longrightarrow>
   mapTasks c clock2 start duration starts ends i names lysB = (tsB, lysB') \<Longrightarrow>
   map arcOf tsA = map arcOf tsB"
proof (induction names arbitrary: i lysA lysB tsA tsB lysA' lysB')
  case Nil
  then show ?case by simp
next
  case (Cons nm rest)
  obtain ta la where a: "assignLayer c i (newTask clock1 start duration starts ends nm i) lysA = (ta, la)"
    by (cases "assignLayer c i (newTask clock1 start duration starts ends nm i) lysA")
  obtain tb lb where b: "assignLayer c i (newTask clock2 start duration starts ends nm i) lysB = (tb, lb)"
    by (cases "assignLayer c i (newTask clock2 start duration starts ends nm i) lysB")
  obtain ra la' where ra: "mapTasks c clock1 start duration starts ends (i + 1) rest la = (ra, la')"
    by (cases "mapTasks c clock1 start duration starts ends (i + 1) rest la")
  obtain rb lb' where rb: "mapTasks c clock2 start duration starts ends (i + 1) rest lb = (rb, lb')"
    by (cases "mapTasks c clock2 start duration starts ends (i + 1) rest lb")
  from Cons.prems a b ra rb have eq: "tsA = ta # ra" "tsB = tb # rb" by auto
  from assignLayer_arc[OF a newTask_layer] assignLayer_arc[OF b newTask_layer]
  have "arcOf ta = arcOf tb" by (simp add: newTask_arc[of clock1 _ _ _ _ _ _ clock2])
  with Cons.IH[OF ra rb] eq show ?case by simp
qed

lemma layout_eq:
  "map name a = map name b \<Longrightarrow> map arcOf a = map arcOf b \<Longrightarrow> map layer a = map layer b \<Longrightarrow>
   map (\<lambda>t. (name t, startAngle t, endAngle t, layer t)) a =
   map (\<lambda>t. (name t, startAngle t, endAngle t, layer t)) b"
proof (induction a arbitrary: b)
  case Nil
  then show ?case by simp
next
  case (Cons x xs)
  then obtain y ys where b: "b = y # ys" by (cases b) auto
  with Cons.prems have hd: "name x = name y" "arcOf x = arcOf y" "layer x = layer y"
    and tl: "map name xs = map name ys" "map arcOf xs = map arcOf ys" "map layer xs = map layer ys"
    by auto
  from hd(2) have "startAngle x = startAngle y" "endAngle x = endAngle y"
    by (simp_all add: arcOf_def)
  with Cons.IH[OF tl] hd(1,3) b show ?case by simp
qed

lemma mapTasks_layers_fixed:
  assumes a: "mapTasks c clock1 start duration starts ends 0 names [[]] = (tsA, lysA)"
    and b: "mapTasks c clock2 start duration starts ends 0 names [[]] = (tsB, lysB)"
  shows "map layer tsA = map layer tsB \<and> (c \<longrightarrow> length lysA = length lysB) \<and> length tsA = length tsB"
proof (cases c)
  case True
  from mapTasks_arcs[OF a b] have arcs: "map arcOf tsA = map arcOf tsB" .
  from a b True mapTasks_firstFit[of clock1 start duration starts ends 0 names "[[]]" tsA lysA]
    mapTasks_firstFit[of clock2 start duration starts ends 0 names "[[]]" tsB lysB]
  have fa: "firstFit [[]] (map arcOf tsA) = (map (\<lambda>t. nat (layer t)) tsA, map (map arcOf) lysA)"
    and na: "\<forall>t \<in> set tsA. 0 \<le> layer t"
    and fb: "firstFit [[]] (map arcOf tsB) = (map (\<lambda>t. nat (layer t)) tsB, map (map arcOf) lysB)"
    and nb: "\<forall>t \<in> set tsB. 0 \<le> layer t"
    by simp_all
  from fa fb arcs have n: "map (\<lambda>t. nat (layer t)) tsA = map (\<lambda>t. nat (layer t)) tsB"
    and l: "map (map arcOf) lysA = map (map arcOf) lysB" by simp_all
  from na have "map layer tsA = map int (map (\<lambda>t. nat (layer t)) tsA)" by (induction tsA) auto
  moreover from nb have "map layer tsB = map int (map (\<lambda>t. nat (layer t)) tsB)" by (induction tsB) auto
  ultimately have "map layer tsA = map layer tsB" using n by simp
  moreover from l have "length lysA = length lysB" by (metis length_map)
  moreover from arcs have "length tsA = length tsB" by (metis length_map)
  ultimately show ?thesis by simp
next
  case False
  from a b False mapTasks_plain[of clock1 start duration starts ends 0 names "[[]]" tsA lysA]
    mapTasks_plain[of clock2 start duration starts ends 0 names "[[]]" tsB lysB]
  have "length tsA = length names" "\<forall>k < length tsA. layer (tsA ! k) = int k"
    "length tsB = length names" "\<forall>k < length tsB. layer (tsB ! k) = int k" by simp_all
  then have "map layer tsA = map layer tsB" "length tsA = length tsB"
    by (simp_all add: list_eq_iff_nth_eq)
  with False show ?thesis by simp
qed

text \<open>
  Claim C10. For a fixed chart, names, starts and ends, two runs of \<^verbatim>\<open>buildGantTasks\<close>
  under any two clocks either both throw, or both return charts with the same name,
  start angle, end angle and layer for every task and the same layer count; only the
  progress fields can differ.
\<close>

theorem layout_clock_independent:
  "map_sum id layoutOf (buildGantTasks gantt clock1 names starts ends) =
   map_sum id layoutOf (buildGantTasks gantt clock2 names starts ends)"
proof (cases "reduce minDate starts")
  case (Inl e)
  then show ?thesis by (simp add: buildGantTasks_def)
next
  case s: (Inr s)
  show ?thesis
  proof (cases "reduce maxDate ends")
    case (Inl e)
    with s show ?thesis by (simp add: buildGantTasks_def)
  next
    case e: (Inr e)
    let ?d = "js_abs (js_sub (valueOf e) (valueOf s))"
    obtain tsA lysA where a: "mapTasks (compress gantt) clock1 (valueOf s) ?d starts ends 0 names [[]] = (tsA, lysA)"
      by (cases "mapTasks (compress gantt) clock1 (valueOf s) ?d starts ends 0 names [[]]")
    obtain tsB lysB where b: "mapTasks (compress gantt) clock2 (valueOf s) ?d starts ends 0 names [[]] = (tsB, lysB)"
      by (cases "mapTasks (compress gantt) clock2 (valueOf s) ?d starts ends 0 names [[]]")
    from mapTasks_names[OF a] mapTasks_names[OF b] have "map name tsA = map name tsB" by simp
    moreover note mapTasks_arcs[OF a b]
    moreover from mapTasks_layers_fixed[OF a b] have lay: "map layer tsA = map layer tsB"
      "compress gantt \<longrightarrow> length lysA = length lysB" "length tsA = length tsB" by simp_all
    ultimately have "map (\<lambda>t. (name t, startAngle t, endAngle t, layer t)) tsA =
       map (\<lambda>t. (name t, startAngle t, endAngle t, layer t)) tsB"
      by (intro layout_eq) simp_all
    with s e a b lay(2,3) show ?thesis
      by (simp add: buildGantTasks_def layoutOf_def Let_def)
  qed
qed

lemma sample_compressed_later:
  "buildGantTasks (initialGantt True) laterClock sampleNames sampleStarts sampleEnds =
     Inr \<lparr>tasks =
            [\<lparr>name = ''a'', startAngle = Num 0, endAngle = Num pi, layer = 0, taskProgress = Num 100\<rparr>,
             \<lparr>name = ''b'', startAngle = Num pi, endAngle = Num (2 * pi), layer = 0, taskProgress = Num 60\<rparr>,
             \<lparr>name = ''c'', startAngle = Num (2 * pi / 5), endAngle = Num (7 * pi / 5), layer = 1,
                taskProgress = Num 100\<rparr>],
          layers = 2, compress = True, progress = Num 80, progressAngle = Num (8 * pi / 5)\<rparr>"
  by (simp add: eval_defs laterClock_def sampleNames_def sampleStarts_def sampleEnds_def)

theorem layout_clock_independent_witness:
  "map_sum id layoutOf (buildGantTasks (initialGantt True) epochClock sampleNames sampleStarts sampleEnds) =
   map_sum id layoutOf (buildGantTasks (initialGantt True) laterClock sampleNames sampleStarts sampleEnds)
   \<and> buildGantTasks (initialGantt True) epochClock sampleNames sampleStarts sampleEnds \<noteq>
     buildGantTasks (initialGantt True) laterClock sampleNames sampleStarts sampleEnds"
  using layout_clock_independent [of "initialGantt True" epochClock sampleNames sampleStarts sampleEnds laterClock]
  by (simp add: sample_compressed sample_compressed_later)

subsection \<open>The percentage of an elapsed time\<close>

text \<open>
  Claim C3, as amended. For a non-negative elapsed value \<open>E\<close> and a duration \<open>D\<close> that
  is a whole, non-negative number of milliseconds, as the durations of lines 406 and 414
  are, \<^verbatim>\<open>calcPercent(E, D)\<close> is a finite number between 0 and 100, and
  \<^verbatim>\<open>calcPercent(D, D)\<close> is 100. For a duration \<open>D'\<close> that is zero or negative the result
  is the overflow value at once; the quotient is computed only when \<open>E < D\<close>, and its
  divisor, the double for \<open>D / 100\<close>, is then neither zero nor NaN. The counterexample
  after the witness has durations that are not whole: for the least positive double
  \<open>2^-1074\<close> the divisor underflows to zero and the percentage of \<open>0\<close> is NaN, and for the
  duration \<open>16 \<times> 2^-1074\<close> the percentage of \<open>2^-1074\<close> is \<open>+\<infinity>\<close>.
\<close>

theorem calcPercent_range:
  fixes E D' :: real and D :: int
  assumes "0 \<le> E" and "0 \<le> D" and "D' \<le> 0"
  shows "(\<exists>r. calcPercent (Num E) (Num (of_int D)) (Num 100) = Num r \<and> 0 \<le> r \<and> r \<le> 100)
     \<and> calcPercent (Num (of_int D)) (Num (of_int D)) (Num 100) = Num 100
     \<and> calcPercent (Num E) (Num D') overflowValue = overflowValue
     \<and> (\<not> js_ge (Num E) (Num (of_int D)) \<longrightarrow>
          js_div (Num (of_int D)) (Num 100) \<noteq> Num 0 \<and> js_div (Num (of_int D)) (Num 100) \<noteq> NaN)"
proof (intro conjI impI)
  show "\<exists>r. calcPercent (Num E) (Num (of_int D)) (Num 100) = Num r \<and> 0 \<le> r \<and> r \<le> 100"
  proof (cases "real_of_int D \<le> E")
    case True
    then show ?thesis by (simp add: calcPercent_overflow)
  next
    case False
    then have lt: "E < real_of_int D" by simp
    with assms(1) have "0 < real_of_int D" by linarith
    then have d: "1 \<le> real_of_int D" by simp
    from calcPercent_below[OF d lt, of "Num 100"] calcPercent_nonneg[OF d assms(1) lt, of "Num 100"]
    show ?thesis by (cases "calcPercent (Num E) (Num (of_int D)) (Num 100)") simp_all
  qed
  show "calcPercent (Num (of_int D)) (Num (of_int D)) (Num 100) = Num 100"
    by (simp add: calcPercent_overflow)
  from assms(1,3) show "calcPercent (Num E) (Num D') overflowValue = overflowValue"
    by (simp add: calcPercent_overflow)
next
  assume "\<not> js_ge (Num E) (Num (of_int D))"
  then have "E < real_of_int D" by (simp add: js_ge_def)
  with assms(1) have "0 < real_of_int D" by linarith
  then have d: "1 \<le> real_of_int D" by simp
  from hundredth[OF d] d show "js_div (Num (of_int D)) (Num 100) \<noteq> Num 0"
    "js_div (Num (of_int D)) (Num 100) \<noteq> NaN" by auto
qed

theorem calcPercent_range_witness:
  "(0::real) \<le> 3 \<and> (0::int) \<le> 4 \<and> (0::real) \<le> 0
     \<and> calcPercent (Num 3) (Num 4) (Num 100) = Num 75
     \<and> calcPercent (Num 4) (Num 4) (Num 100) = Num 100
     \<and> calcPercent (Num 3) (Num 0) (Num 0) = Num 0
     \<and> \<not> js_ge (Num 3) (Num 4)
     \<and> js_div (Num 4) (Num 100) \<noteq> Num 0"
  using calcPercent_range [of 3 4 0 "Num 0"]
  by (simp add: js_ge_def calcPercent_moderate calcPercent_overflow)

theorem calcPercent_range_counterexample:
  "(0::real) \<le> 0 \<and> (0::real) \<le> 1 / 2 ^ 1074
     \<and> calcPercent (Num 0) (Num (1 / 2 ^ 1074)) (Num 100) = NaN
     \<and> (0::real) \<le> 16 / 2 ^ 1074
     \<and> calcPercent (Num (1 / 2 ^ 1074)) (Num (16 / 2 ^ 1074)) (Num 100) = PosInf"
proof -
  have a: "calcPercent (Num 0) (Num (1 / 2 ^ 1074)) (Num 100) = NaN"
    using calcPercent_lost_divisor[OF _ tiny_positive(1) tiny_hundredths(1), of "Num 100"]
    by (simp only: order_refl if_True simp_thms)
  have ne: "(1::real) / 2 ^ 1074 \<noteq> 0" using tiny_positive(1) by (rule less_imp_neq [symmetric])
  have b: "calcPercent (Num (1 / 2 ^ 1074)) (Num (16 / 2 ^ 1074)) (Num 100) = PosInf"
    using calcPercent_lost_divisor[OF less_imp_le[OF tiny_positive(1)] tiny_positive(2)
        tiny_hundredths(2), of "Num 100"] ne
    by (simp only: if_False simp_thms)
  show ?thesis
    by (intro conjI a b less_imp_le[OF tiny_positive(1)] less_imp_le[OF tiny_positive(4)] order_refl)
qed

subsection \<open>The angle of a time offset\<close>

text \<open>
  Claim C6, as amended. For a fixed span that is a whole, non-negative number of
  milliseconds, as line 406 computes from valid dates, the angle of a finite offset does
  not decrease when the offset grows: \<^verbatim>\<open>v1 <= v2\<close> gives
  \<^verbatim>\<open>calcTaskRadians(v1, d) <= calcTaskRadians(v2, d)\<close>. The counterexample after the
  witness shows the three spans the claim as written includes and for which the code is
  not monotone: the span NaN that line 406 yields when the latest end date is invalid
  (every angle is NaN, and \<^verbatim>\<open>NaN <= NaN\<close> is false), a negative span, and the span
  \<open>20 \<times> 2^-1074\<close>, whose hundredth underflows to zero so that a smaller positive offset
  maps to \<open>+\<infinity>\<close>.
\<close>

theorem calcTaskRadians_monotone:
  fixes n :: int
  assumes "0 \<le> n" and "x1 \<le> x2"
  shows "js_le (calcTaskRadians (Num x1) (Num (of_int n)) False)
               (calcTaskRadians (Num x2) (Num (of_int n)) False)"
  using radians_mono_whole[OF whole_span[OF assms(1)] assms(2)] .

theorem calcTaskRadians_monotone_witness:
  "(0::int) \<le> 10 \<and> (2::real) \<le> 5
     \<and> calcTaskRadians (Num 2) (Num 10) False = Num (2 * pi / 5)
     \<and> calcTaskRadians (Num 5) (Num 10) False = Num pi
     \<and> js_le (Num (2 * pi / 5)) (Num pi)"
proof -
  have a: "calcTaskRadians (Num 2) (Num 10) False = Num (2 * pi / 5)"
    and b: "calcTaskRadians (Num 5) (Num 10) False = Num pi"
    by (simp_all add: calcTaskRadians_radiansOf calcPercent_moderate radiansOf_moderate)
  from calcTaskRadians_monotone [of 10 2 5] a b show ?thesis by simp
qed

theorem calcTaskRadians_monotone_counterexample:
  "js_le (Num 1) (Num 2)
     \<and> reduce maxDate [ValidDate 10, InvalidDate] = Inr InvalidDate
     \<and> js_abs (js_sub (valueOf InvalidDate) (valueOf (ValidDate 0))) = NaN
     \<and> \<not> js_le (calcTaskRadians (Num 1) NaN False) (calcTaskRadians (Num 2) NaN False)
     \<and> js_le (Num (- 200)) (Num 0)
     \<and> calcTaskRadians (Num (- 200)) (Num (- 100)) False = Num (4 * pi)
     \<and> calcTaskRadians (Num 0) (Num (- 100)) False = Num (2 * pi)
     \<and> \<not> js_le (Num (4 * pi)) (Num (2 * pi))
     \<and> js_le (Num (1 / 2 ^ 1074)) (Num (20 / 2 ^ 1074))
     \<and> calcTaskRadians (Num (1 / 2 ^ 1074)) (Num (20 / 2 ^ 1074)) False = PosInf
     \<and> calcTaskRadians (Num (20 / 2 ^ 1074)) (Num (20 / 2 ^ 1074)) False = Num (2 * pi)
     \<and> \<not> js_le PosInf (Num (2 * pi))"
proof -
  have c1: "js_le (Num 1) (Num 2)" by simp
  have c2: "reduce maxDate [ValidDate 10, InvalidDate] = Inr InvalidDate"
    by (simp add: reduce_def maxDate_def js_gt_def)
  have c3: "js_abs (js_sub (valueOf InvalidDate) (valueOf (ValidDate 0))) = NaN" by simp
  have c4: "\<not> js_le (calcTaskRadians (Num 1) NaN False) (calcTaskRadians (Num 2) NaN False)"
    by (simp add: calcTaskRadians_radiansOf)
  have c5: "js_le (Num (- 200)) (Num 0)" by simp
  have c6: "calcTaskRadians (Num (- 200)) (Num (- 100)) False = Num (4 * pi)"
    and c7: "calcTaskRadians (Num 0) (Num (- 100)) False = Num (2 * pi)"
    by (simp_all add: calcTaskRadians_radiansOf calcPercent_def js_ge_def toDouble_moderate
        radiansOf_moderate)
  have c8: "\<not> js_le (Num (4 * pi)) (Num (2 * pi))" by (simp add: not_le)
  have c9: "js_le (Num (1 / 2 ^ 1074)) (Num (20 / 2 ^ 1074))"
    using less_imp_le[OF tiny_positive(3)] by (simp only: js_le.simps)
  have ne: "(1::real) / 2 ^ 1074 \<noteq> 0" using tiny_positive(1) by (rule less_imp_neq [symmetric])
  have "calcPercent (Num (1 / 2 ^ 1074)) (Num (20 / 2 ^ 1074)) (Num 100) = PosInf"
    using calcPercent_lost_divisor[OF less_imp_le[OF tiny_positive(1)] tiny_positive(3)
        tiny_hundredths(3), of "Num 100"] ne
    by (simp only: if_False simp_thms)
  then have c10: "calcTaskRadians (Num (1 / 2 ^ 1074)) (Num (20 / 2 ^ 1074)) False = PosInf"
    by (simp only: calcTaskRadians_radiansOf if_False radiansOf_infinite)
  have c11: "calcTaskRadians (Num (20 / 2 ^ 1074)) (Num (20 / 2 ^ 1074)) False = Num (2 * pi)"
    by (rule calcTaskRadians_overflow) (rule order_refl)
  have c12: "\<not> js_le PosInf (Num (2 * pi))" by simp
  show ?thesis by (intro conjI c1 c2 c3 c4 c5 c6 c7 c8 c9 c10 c11 c12)
qed

subsection \<open>From the data view to the tasks\<close>

lemma converter_build:
  assumes "categorical dataView = Some categoryView"
    and "categories categoryView = Some (category # cats)"
    and "valueColumns categoryView = Some (startColumn # endColumn # others)"
  shows "converter dataView clock =
     buildGantTasks (initialGantt (compressLayout dataView)) clock
       (categoryValues category) (columnValues startColumn) (columnValues endColumn)"
  using assms by (simp add: converter_def initialGantt_def)

lemma converter_tableView:
  "converter (tableView names starts ends) clock =
     buildGantTasks (initialGantt False) clock names starts ends"
  by (simp add: converter_def initialGantt_def tableView_def compressLayout_def)

lemma foldl_minDate_valid:
  "\<forall>d \<in> set rest. d \<noteq> InvalidDate \<Longrightarrow>
     \<exists>m. foldl minDate (ValidDate a) rest = ValidDate m \<and> m \<le> a
        \<and> (\<forall>b. ValidDate b \<in> set rest \<longrightarrow> m \<le> b)"
proof (induction rest arbitrary: a)
  case Nil
  then show ?case by simp
next
  case (Cons x xs)
  then obtain b where x: "x = ValidDate b" by (cases x) auto
  show ?case
  proof (cases "a < b")
    case True
    with x have step: "minDate (ValidDate a) x = ValidDate a" by (simp add: minDate_def)
    from Cons.prems Cons.IH[of a] obtain m where "foldl minDate (ValidDate a) xs = ValidDate m"
      "m \<le> a" "\<forall>c. ValidDate c \<in> set xs \<longrightarrow> m \<le> c" by auto
    with step x True show ?thesis by auto
  next
    case False
    with x have step: "minDate (ValidDate a) x = ValidDate b" by (simp add: minDate_def)
    from Cons.prems Cons.IH[of b] obtain m where "foldl minDate (ValidDate b) xs = ValidDate m"
      "m \<le> b" "\<forall>c. ValidDate c \<in> set xs \<longrightarrow> m \<le> c" by auto
    with step x False show ?thesis by auto
  qed
qed

lemma foldl_maxDate_valid:
  "\<forall>d \<in> set rest. d \<noteq> InvalidDate \<Longrightarrow>
     \<exists>m. foldl maxDate (ValidDate a) rest = ValidDate m \<and> a \<le> m
        \<and> (\<forall>b. ValidDate b \<in> set rest \<longrightarrow> b \<le> m)"
proof (induction rest arbitrary: a)
  case Nil
  then show ?case by simp
next
  case (Cons x xs)
  then obtain b where x: "x = ValidDate b" by (cases x) auto
  show ?case
  proof (cases "b < a")
    case True
    with x have step: "maxDate (ValidDate a) x = ValidDate a" by (simp add: maxDate_def js_gt_def)
    from Cons.prems Cons.IH[of a] obtain m where "foldl maxDate (ValidDate a) xs = ValidDate m"
      "a \<le> m" "\<forall>c. ValidDate c \<in> set xs \<longrightarrow> c \<le> m" by auto
    with step x True show ?thesis by auto
  next
    case False
    with x have step: "maxDate (ValidDate a) x = ValidDate b" by (simp add: maxDate_def js_gt_def)
    from Cons.prems Cons.IH[of b] obtain m where "foldl maxDate (ValidDate b) xs = ValidDate m"
      "b \<le> m" "\<forall>c. ValidDate c \<in> set xs \<longrightarrow> c \<le> m" by auto
    with step x False show ?thesis by auto
  qed
qed

lemma reduce_minDate_valid:
  assumes "reduce minDate starts = Inr s" and "\<forall>d \<in> set starts. d \<noteq> InvalidDate"
  shows "\<exists>m. s = ValidDate m \<and> (\<forall>b. ValidDate b \<in> set starts \<longrightarrow> m \<le> b)"
proof (cases starts)
  case Nil
  with assms(1) show ?thesis by (simp add: reduce_def)
next
  case (Cons x rest)
  with assms(2) obtain a where x: "x = ValidDate a" by (cases x) auto
  from assms(2) Cons have "\<forall>d \<in> set rest. d \<noteq> InvalidDate" by simp
  from foldl_minDate_valid[OF this, of a] assms(1) Cons x show ?thesis
    by (auto simp: reduce_def)
qed

lemma reduce_maxDate_valid:
  assumes "reduce maxDate ends = Inr e" and "\<forall>d \<in> set ends. d \<noteq> InvalidDate"
  shows "\<exists>m. e = ValidDate m \<and> (\<forall>b. ValidDate b \<in> set ends \<longrightarrow> b \<le> m)"
proof (cases ends)
  case Nil
  with assms(1) show ?thesis by (simp add: reduce_def)
next
  case (Cons x rest)
  with assms(2) obtain a where x: "x = ValidDate a" by (cases x) auto
  from assms(2) Cons have "\<forall>d \<in> set rest. d \<noteq> InvalidDate" by simp
  from foldl_maxDate_valid[OF this, of a] assms(1) Cons x show ?thesis
    by (auto simp: reduce_def)
qed

lemma newTask_arcOf:
  "arcOf (newTask clock start duration starts ends nm i) =
     (calcTaskRadians (js_sub (valueOf (dateAt starts i)) start) duration True,
      calcTaskRadians (js_sub (valueOf (dateAt ends i)) start) duration False)"
  by (simp add: newTask_def arcOf_def Let_def)

lemma mapTasks_nth:
  "mapTasks c clock start duration starts ends i names lys = (ts, lys') \<Longrightarrow> k < length names \<Longrightarrow>
     length ts = length names \<and>
     arcOf (ts ! k) = arcOf (newTask clock start duration starts ends (names ! k) (i + k))"
proof (induction names arbitrary: i lys ts lys' k)
  case Nil
  then show ?case by simp
next
  case (Cons nm rest)
  obtain task lys1 where asg: "assignLayer c i (newTask clock start duration starts ends nm i) lys = (task, lys1)"
    by (cases "assignLayer c i (newTask clock start duration starts ends nm i) lys")
  obtain ts1 lys2 where rec: "mapTasks c clock start duration starts ends (i + 1) rest lys1 = (ts1, lys2)"
    by (cases "mapTasks c clock start duration starts ends (i + 1) rest lys1")
  from Cons.prems(1) asg rec have eq: "ts = task # ts1" by auto
  from mapTasks_names[OF rec] have len: "length ts1 = length rest" by (metis length_map)
  show ?case
  proof (cases k)
    case 0
    with eq len assignLayer_arc[OF asg newTask_layer] show ?thesis by simp
  next
    case (Suc k')
    with Cons.prems(2) have "k' < length rest" by simp
    from Cons.IH[OF rec this] eq Suc show ?thesis by simp
  qed
qed

lemma built_task_arc:
  assumes b: "buildGantTasks gantt clock names starts ends = Inr g'"
    and valid: "\<forall>d \<in> set starts \<union> set ends. d \<noteq> InvalidDate"
    and i: "i < length names" "i < length starts" "i < length ends"
    and a: "starts ! i = ValidDate a" and e: "ends ! i = ValidDate b"
  shows "\<exists>S E. reduce minDate starts = Inr (ValidDate S) \<and> reduce maxDate ends = Inr (ValidDate E)
     \<and> S \<le> a \<and> b \<le> E \<and> i < length (tasks g')
     \<and> startAngle (tasks g' ! i) = calcTaskRadians (Num (of_int a - of_int S)) (Num \<bar>of_int E - of_int S\<bar>) True
     \<and> endAngle (tasks g' ! i) = calcTaskRadians (Num (of_int b - of_int S)) (Num \<bar>of_int E - of_int S\<bar>) False"
proof -
  from b obtain s e ts lys where
    s: "reduce minDate starts = Inr s" and e': "reduce maxDate ends = Inr e"
    and m: "mapTasks (compress gantt) clock (valueOf s) (js_abs (js_sub (valueOf e) (valueOf s)))
       starts ends 0 names [[]] = (ts, lys)" and ts: "tasks g' = ts"
    by (rule buildGantTasks_Inr)
  from reduce_minDate_valid[OF s] valid obtain S where S: "s = ValidDate S"
    "\<forall>b. ValidDate b \<in> set starts \<longrightarrow> S \<le> b" by auto
  from reduce_maxDate_valid[OF e'] valid obtain E where E: "e = ValidDate E"
    "\<forall>b. ValidDate b \<in> set ends \<longrightarrow> b \<le> E" by auto
  from i(2) a have "ValidDate a \<in> set starts" by (metis nth_mem)
  with S(2) have Sa: "S \<le> a" by simp
  from i(3) e have "ValidDate b \<in> set ends" by (metis nth_mem)
  with E(2) have bE: "b \<le> E" by simp
  from mapTasks_nth[OF m i(1)] have len: "length ts = length names"
    and arc: "arcOf (ts ! i) = arcOf (newTask clock (valueOf s) (js_abs (js_sub (valueOf e) (valueOf s))) starts ends (names ! i) i)"
    by simp_all
  from arc i a e S(1) E(1) have
    "arcOf (ts ! i) = (calcTaskRadians (Num (of_int a - of_int S)) (Num \<bar>of_int E - of_int S\<bar>) True,
       calcTaskRadians (Num (of_int b - of_int S)) (Num \<bar>of_int E - of_int S\<bar>) False)"
    by (simp add: newTask_arcOf dateAt_def)
  then have
    "startAngle (ts ! i) = calcTaskRadians (Num (of_int a - of_int S)) (Num \<bar>of_int E - of_int S\<bar>) True"
    "endAngle (ts ! i) = calcTaskRadians (Num (of_int b - of_int S)) (Num \<bar>of_int E - of_int S\<bar>) False"
    by (simp_all add: arcOf_def)
  with s e' S(1) E(1) Sa bE len i(1) ts show ?thesis by simp
qed

text \<open>
  Claim C8, as amended. When every start and end timestamp is a valid date, every task
  the converter produces whose end timestamp is not before its start timestamp has
  \<^verbatim>\<open>startAngle <= endAngle\<close>. The counterexample after the witness shows the two cases the
  claim as written includes and the code does not cover: a task that ends before it
  starts gets the angles \<open>0\<close> and \<open>-2\<pi>\<close>, and an invalid date makes both angles NaN.
\<close>

theorem valid_task_angles_ordered:
  assumes "categorical dataView = Some categoryView"
    and "categories categoryView = Some (category # cats)"
    and "valueColumns categoryView = Some (startColumn # endColumn # others)"
    and "converter dataView clock = Inr gantt"
    and "\<forall>d \<in> set (columnValues startColumn) \<union> set (columnValues endColumn). d \<noteq> InvalidDate"
    and "i < length (categoryValues category)"
    and "i < length (columnValues startColumn)" and "i < length (columnValues endColumn)"
    and "columnValues startColumn ! i = ValidDate a" and "columnValues endColumn ! i = ValidDate b"
    and "a \<le> b"
  shows "i < length (tasks gantt) \<and> js_le (startAngle (tasks gantt ! i)) (endAngle (tasks gantt ! i))"
proof -
  from assms(4) converter_build[OF assms(1-3), of clock]
  have "buildGantTasks (initialGantt (compressLayout dataView)) clock
       (categoryValues category) (columnValues startColumn) (columnValues endColumn) = Inr gantt"
    by simp
  from built_task_arc[OF this assms(5-10)] obtain S E where
    len: "i < length (tasks gantt)"
    and sa: "startAngle (tasks gantt ! i) =
        calcTaskRadians (Num (of_int a - of_int S)) (Num \<bar>of_int E - of_int S\<bar>) True"
    and ea: "endAngle (tasks gantt ! i) =
        calcTaskRadians (Num (of_int b - of_int S)) (Num \<bar>of_int E - of_int S\<bar>) False"
    by blast
  from assms(11) have le: "(of_int a - of_int S :: real) \<le> of_int b - of_int S" by simp
  have "0 \<le> \<bar>E - S\<bar>" by simp
  from whole_span[OF this]
  have "\<bar>real_of_int E - real_of_int S\<bar> = 0 \<or> 1 \<le> \<bar>real_of_int E - real_of_int S\<bar>"
    by simp
  from angles_ordered[OF this le] sa ea len show ?thesis by simp
qed

lemma sample_view:
  "converter (tableView sampleNames sampleStarts sampleEnds) epochClock =
     Inr \<lparr>tasks =
            [\<lparr>name = ''a'', startAngle = Num 0, endAngle = Num pi, layer = 0, taskProgress = Num 0\<rparr>,
             \<lparr>name = ''b'', startAngle = Num pi, endAngle = Num (2 * pi), layer = 1, taskProgress = Num 0\<rparr>,
             \<lparr>name = ''c'', startAngle = Num (2 * pi / 5), endAngle = Num (7 * pi / 5), layer = 2,
                taskProgress = Num 0\<rparr>],
          layers = 3, compress = False, progress = Num 0, progressAngle = Num 0\<rparr>"
  by (simp add: converter_tableView sample_plain)

theorem valid_task_angles_ordered_witness:
  "(case converter (tableView sampleNames sampleStarts sampleEnds) epochClock of
      Inl e \<Rightarrow> False
    | Inr g \<Rightarrow> sampleStarts ! 2 = ValidDate 2 \<and> sampleEnds ! 2 = ValidDate 7 \<and> (2::int) \<le> 7
        \<and> 2 < length (tasks g)
        \<and> js_le (startAngle (tasks g ! 2)) (endAngle (tasks g ! 2)))"
proof -
  obtain g where ev: "converter (tableView sampleNames sampleStarts sampleEnds) epochClock = Inr g"
    using sample_view by simp
  have view: "categorical (tableView sampleNames sampleStarts sampleEnds) =
      Some \<lparr>categories = Some [\<lparr>categoryValues = sampleNames\<rparr>],
            valueColumns = Some [\<lparr>columnValues = sampleStarts\<rparr>, \<lparr>columnValues = sampleEnds\<rparr>]\<rparr>"
    by (simp add: tableView_def)
  have idx: "sampleStarts ! 2 = ValidDate 2" "sampleEnds ! 2 = ValidDate 7"
    by (simp_all add: sampleStarts_def sampleEnds_def)
  have "2 < length (tasks g) \<and> js_le (startAngle (tasks g ! 2)) (endAngle (tasks g ! 2))"
  proof (rule valid_task_angles_ordered [OF view _ _ ev])
    show "categories \<lparr>categories = Some [\<lparr>categoryValues = sampleNames\<rparr>],
            valueColumns = Some [\<lparr>columnValues = sampleStarts\<rparr>, \<lparr>columnValues = sampleEnds\<rparr>]\<rparr>
          = Some (\<lparr>categoryValues = sampleNames\<rparr> # [])" by simp
    show "valueColumns \<lparr>categories = Some [\<lparr>categoryValues = sampleNames\<rparr>],
            valueColumns = Some [\<lparr>columnValues = sampleStarts\<rparr>, \<lparr>columnValues = sampleEnds\<rparr>]\<rparr>
          = Some (\<lparr>columnValues = sampleStarts\<rparr> # \<lparr>columnValues = sampleEnds\<rparr> # [])" by simp
    show "\<forall>d \<in> set (columnValues \<lparr>columnValues = sampleStarts\<rparr>)
        \<union> set (columnValues \<lparr>columnValues = sampleEnds\<rparr>). d \<noteq> InvalidDate"
      by (simp add: sampleStarts_def sampleEnds_def)
    show "2 < length (categoryValues \<lparr>categoryValues = sampleNames\<rparr>)"
      by (simp add: sampleNames_def)
    show "2 < length (columnValues \<lparr>columnValues = sampleStarts\<rparr>)"
      by (simp add: sampleStarts_def)
    show "2 < length (columnValues \<lparr>columnValues = sampleEnds\<rparr>)"
      by (simp add: sampleEnds_def)
    show "columnValues \<lparr>columnValues = sampleStarts\<rparr> ! 2 = ValidDate 2" using idx by simp
    show "columnValues \<lparr>columnValues = sampleEnds\<rparr> ! 2 = ValidDate 7" using idx by simp
    show "(2::int) \<le> 7" by simp
  qed
  with ev idx show ?thesis by simp
qed

theorem valid_task_angles_ordered_counterexample:
  "converter (tableView [''a''] [ValidDate 10] [ValidDate 0]) epochClock =
     Inr \<lparr>tasks = [\<lparr>name = ''a'', startAngle = Num 0, endAngle = Num (- (2 * pi)), layer = 0,
                    taskProgress = Num 100\<rparr>],
          layers = 1, compress = False, progress = Num 0, progressAngle = Num 0\<rparr>
   \<and> \<not> js_le (Num 0) (Num (- (2 * pi)))
   \<and> converter (tableView [''a''] [InvalidDate] [ValidDate 0]) epochClock =
     Inr \<lparr>tasks = [\<lparr>name = ''a'', startAngle = NaN, endAngle = NaN, layer = 0,
                    taskProgress = NaN\<rparr>],
          layers = 1, compress = False, progress = NaN, progressAngle = NaN\<rparr>
   \<and> \<not> js_le NaN NaN"
  by (simp add: converter_tableView eval_defs not_le)

subsection \<open>The angle mapping and a span of zero\<close>

lemma zero_span_chart:
  "buildGantTasks (initialGantt False) epochClock [''a'', ''b'']
       [ValidDate 5, ValidDate 5] [ValidDate 5, ValidDate 3] =
     Inr \<lparr>tasks =
            [\<lparr>name = ''a'', startAngle = Num 0, endAngle = Num (2 * pi), layer = 0,
               taskProgress = Num 100\<rparr>,
             \<lparr>name = ''b'', startAngle = Num 0, endAngle = NegInf, layer = 1,
               taskProgress = Num 100\<rparr>],
          layers = 2, compress = False, progress = Num 100, progressAngle = Num (2 * pi)\<rparr>"
  by (simp add: eval_defs)

lemma zero_span_reduce:
  "reduce minDate [ValidDate 5, ValidDate 5] = Inr (ValidDate 5)"
  "reduce maxDate [ValidDate 5, ValidDate 3] = Inr (ValidDate 5)"
  "js_abs (js_sub (valueOf (ValidDate 5)) (valueOf (ValidDate 5))) = Num 0"
  by (simp_all add: reduce_def minDate_def maxDate_def js_gt_def)

text \<open>
  Claim C5, as amended. For every offset and duration the angle is
  \<^verbatim>\<open>(value >= duration ? 100 : value / (duration / 100)) * 3.6 * PI / 180\<close>; with
  \<^verbatim>\<open>defaultToZero\<close> the overflow percentage is 0 instead of 100. When all dates are valid
  and the overall span is zero, the start angle of every task is 0, and the end angle of
  a task whose end is not before its start is \<open>2\<pi>\<close>. The counterexample after the
  witness is a chart of span zero with a task that ends before it starts: its offset is
  negative, the quotient by zero is taken, and its end angle is \<open>-\<infinity>\<close>. Its second half
  is a chart of span zero with an invalid start date, whose start angle is NaN.
\<close>

theorem angle_mapping_zero_span:
  assumes "buildGantTasks gantt clock names starts ends = Inr g'"
    and "\<forall>d \<in> set starts \<union> set ends. d \<noteq> InvalidDate"
    and "reduce minDate starts = Inr s" and "reduce maxDate ends = Inr e"
    and "js_abs (js_sub (valueOf e) (valueOf s)) = Num 0"
    and "i < length names" and "i < length starts" and "i < length ends"
    and "starts ! i = ValidDate a" and "ends ! i = ValidDate b"
  shows "calcTaskRadians value duration False =
           js_div (js_mul (js_mul (if js_ge value duration then Num 100
                                   else js_div value (js_div duration (Num 100)))
                                  (Num (36 / 10))) (Num pi)) (Num 180)
     \<and> calcTaskRadians value duration True =
           js_div (js_mul (js_mul (if js_ge value duration then Num 0
                                   else js_div value (js_div duration (Num 100)))
                                  (Num (36 / 10))) (Num pi)) (Num 180)
     \<and> startAngle (tasks g' ! i) = Num 0
     \<and> (a \<le> b \<longrightarrow> endAngle (tasks g' ! i) = Num (2 * pi))"
proof (intro conjI impI)
  show "calcTaskRadians value duration False =
           js_div (js_mul (js_mul (if js_ge value duration then Num 100
                                   else js_div value (js_div duration (Num 100)))
                                  (Num (36 / 10))) (Num pi)) (Num 180)"
    by (simp add: calcTaskRadians_def calcPercent_def)
  show "calcTaskRadians value duration True =
           js_div (js_mul (js_mul (if js_ge value duration then Num 0
                                   else js_div value (js_div duration (Num 100)))
                                  (Num (36 / 10))) (Num pi)) (Num 180)"
    by (simp add: calcTaskRadians_def calcPercent_def)
  from built_task_arc[OF assms(1,2,6-10)] obtain S E where
    red: "reduce minDate starts = Inr (ValidDate S)" "reduce maxDate ends = Inr (ValidDate E)"
    and Sa: "S \<le> a"
    and sa: "startAngle (tasks g' ! i) =
        calcTaskRadians (Num (of_int a - of_int S)) (Num \<bar>of_int E - of_int S\<bar>) True"
    and ea: "endAngle (tasks g' ! i) =
        calcTaskRadians (Num (of_int b - of_int S)) (Num \<bar>of_int E - of_int S\<bar>) False"
    by blast
  from red assms(3,4) have "s = ValidDate S" "e = ValidDate E" by simp_all
  with assms(5) have zero: "\<bar>real_of_int E - real_of_int S\<bar> = 0" by simp
  from Sa have "(0::real) \<le> of_int a - of_int S" by simp
  with sa zero show "startAngle (tasks g' ! i) = Num 0" by (simp add: calcTaskRadians_overflow)
  assume "a \<le> b"
  with Sa have "(0::real) \<le> of_int b - of_int S" by simp
  with ea zero show "endAngle (tasks g' ! i) = Num (2 * pi)" by (simp add: calcTaskRadians_overflow)
qed

theorem angle_mapping_zero_span_witness:
  "(case buildGantTasks (initialGantt False) epochClock [''a'', ''b'']
           [ValidDate 5, ValidDate 5] [ValidDate 5, ValidDate 3] of
      Inl e \<Rightarrow> False
    | Inr g \<Rightarrow> reduce minDate [ValidDate 5, ValidDate 5] = Inr (ValidDate 5)
        \<and> reduce maxDate [ValidDate 5, ValidDate 3] = Inr (ValidDate 5)
        \<and> js_abs (js_sub (valueOf (ValidDate 5)) (valueOf (ValidDate 5))) = Num 0
        \<and> (5::int) \<le> 5
        \<and> startAngle (tasks g ! 0) = Num 0 \<and> endAngle (tasks g ! 0) = Num (2 * pi))"
proof -
  have valid: "\<forall>d \<in> set [ValidDate 5, ValidDate 5] \<union> set [ValidDate 5, ValidDate 3]. d \<noteq> InvalidDate"
    by simp
  from angle_mapping_zero_span [OF zero_span_chart valid zero_span_reduce, of 0 5 5]
  show ?thesis by (simp add: zero_span_chart zero_span_reduce)
qed

theorem angle_mapping_zero_span_counterexample:
  "reduce minDate [ValidDate 5, ValidDate 5] = Inr (ValidDate 5)
   \<and> reduce maxDate [ValidDate 5, ValidDate 3] = Inr (ValidDate 5)
   \<and> js_abs (js_sub (valueOf (ValidDate 5)) (valueOf (ValidDate 5))) = Num 0
   \<and> buildGantTasks (initialGantt False) epochClock [''a'', ''b'']
       [ValidDate 5, ValidDate 5] [ValidDate 5, ValidDate 3] =
     Inr \<lparr>tasks =
            [\<lparr>name = ''a'', startAngle = Num 0, endAngle = Num (2 * pi), layer = 0,
               taskProgress = Num 100\<rparr>,
             \<lparr>name = ''b'', startAngle = Num 0, endAngle = NegInf, layer = 1,
               taskProgress = Num 100\<rparr>],
          layers = 2, compress = False, progress = Num 100, progressAngle = Num (2 * pi)\<rparr>
   \<and> NegInf \<noteq> Num (2 * pi)
   \<and> reduce minDate [InvalidDate, ValidDate 5] = Inr (ValidDate 5)
   \<and> reduce maxDate [ValidDate 5, ValidDate 5] = Inr (ValidDate 5)
   \<and> buildGantTasks (initialGantt False) epochClock [''a'', ''b'']
       [InvalidDate, ValidDate 5] [ValidDate 5, ValidDate 5] =
     Inr \<lparr>tasks =
            [\<lparr>name = ''a'', startAngle = NaN, endAngle = Num (2 * pi), layer = 0,
               taskProgress = NaN\<rparr>,
             \<lparr>name = ''b'', startAngle = Num 0, endAngle = Num (2 * pi), layer = 1,
               taskProgress = Num 100\<rparr>],
          layers = 2, compress = False, progress = Num 100, progressAngle = Num (2 * pi)\<rparr>
   \<and> NaN \<noteq> Num 0"
  by (simp add: zero_span_chart zero_span_reduce) (simp add: eval_defs)

subsection \<open>Charts without tasks\<close>

lemma converter_without_columns:
  "categorical dataView = None \<or>
   (\<exists>categoryView. categorical dataView = Some categoryView \<and>
      (categories categoryView = None \<or> categories categoryView = Some []
       \<or> valueColumns categoryView = None
       \<or> (\<exists>vals. valueColumns categoryView = Some vals \<and> length vals < 2)))
   \<Longrightarrow> converter dataView clock = Inr (initialGantt (compressLayout dataView))"
  by (auto simp: converter_def initialGantt_def Let_def split: option.splits)

text \<open>
  Claim C7. The claim says that the converter completes on every data view, empty
  category and value arrays included. On the view of a table without rows the category
  column exists and there are two value columns, so \<^verbatim>\<open>buildGantTasks\<close> is called; line 404
  reduces the empty array of starts without an initial value and throws.
\<close>

theorem converter_throws_on_empty_table:
  "converter (tableView [] [] []) clock = Inl TypeError"
  by (simp add: converter_tableView buildGantTasks_def reduce_def)

text \<open>
  Claim C9. The claim says that an empty task list gives a chart of zero layers with the
  label \<^verbatim>\<open>Project Has No Tasks\<close>. The label is the one claimed for a task count of zero,
  but \<^verbatim>\<open>buildGantTasks\<close> on empty names, starts and ends throws at line 404 under either
  flag and returns no chart; on empty names with non-empty columns and the compress flag
  set it returns no tasks and one layer, the empty layer of line 407.
\<close>

theorem empty_task_list_chart:
  "buildGantTasks (initialGantt c) clock [] [] [] = Inl TypeError
   \<and> map_sum id (\<lambda>g. (tasks g, layers g))
        (buildGantTasks (initialGantt True) clock [] [ValidDate 0] [ValidDate 0]) = Inr ([], 1)
   \<and> getTotalProgressLabel toString 0 p = ''Project Has No Tasks''"
  by (simp add: buildGantTasks_def reduce_def initialGantt_def getTotalProgressLabel_def Let_def)

end
